theory Spec2Isabelle
  imports Complex_Main "HOL-Library.Multiset" "HOL-Library.Log_Nat"
begin

section \<open>Data model of script.js\<close>

text \<open>
  Times, bursts and priorities are JavaScript numbers, that is IEEE 754 double precision
  numbers. A process that passed \<open>readProcesses\<close> carries finite numbers only. A finite
  double is a real number, and the fields of a process and every clock value derived from
  them are modelled as reals; the two operations the algorithms apply to them, \<open>+\<close> and
  \<open>-\<close>, are modelled by \<open>js_add\<close> and \<open>js_sub\<close>, which round the exact sum or difference
  to the nearest number with a significand of 53 bits, ties to the even significand, as the
  machine does. Comparisons of finite doubles are exact. Sums of magnitude \<open>2^1024\<close> or
  more, which the machine turns into \<open>Infinity\<close>, are outside the model.
  Where the source can hold a non-finite number (the quantum read by \<open>Number(...)\<close>, the
  value of \<open>Math.min()\<close> on no arguments) the type \<open>jsnum\<close> is used.
  The display attribute \<open>color\<close>, which is only copied from a process to its blocks, is
  left out.
\<close>

datatype jsnum = Num real | PosInf | NegInf | NaN

datatype error = Error string | TypeError

text \<open>Rounding to the nearest integer, ties to the even one.\<close>

definition round_even :: "real \<Rightarrow> int" where
  "round_even x =
     (let f = \<lfloor>x\<rfloor>; d = x - of_int f
      in if d < 1 / 2 then f else if 1 / 2 < d then f + 1 else if even f then f else f + 1)"

text \<open>The binary exponent of a number \<open>x \<noteq> 0\<close>: \<open>2^e \<le> |x| < 2^(e+1)\<close>.\<close>

definition expo :: "real \<Rightarrow> int" where
  "expo x = (if 1 \<le> \<bar>x\<bar> then bitlen \<lfloor>\<bar>x\<bar>\<rfloor> - 1 else - bitlen (\<lceil>1 / \<bar>x\<bar>\<rceil> - 1))"

text \<open>
  The double nearest to a real number: the multiple of \<open>2^(e-52)\<close> nearest to \<open>x\<close>, where
  \<open>e\<close> is the exponent of \<open>x\<close>.
\<close>

definition rd :: "real \<Rightarrow> real" where
  "rd x = (if x = 0 then 0
           else of_int (round_even (x / 2 powi (expo x - 52))) * 2 powi (expo x - 52))"

text \<open>\<open>x + y\<close> and \<open>x - y\<close> on doubles.\<close>

definition js_add :: "real \<Rightarrow> real \<Rightarrow> real" where
  "js_add x y = rd (x + y)"

definition js_sub :: "real \<Rightarrow> real \<Rightarrow> real" where
  "js_sub x y = rd (x - y)"

record process =
  pid :: string
  arrival :: real
  burst :: real
  priority :: real

record block =
  b_pid :: string
  b_start :: real
  b_end :: real

record proc_result =
  start :: real
  completion :: real
  tat :: real
  wt :: real
  response :: real
  arrival_of :: real
  burst_of :: real
  priority_of :: real

type_synonym res_map = "string \<rightharpoonup> proc_result"

record sim_result =
  blocks :: "block list"
  results :: res_map
  endTime :: jsnum

text \<open>\<open>Math.min(...xs)\<close> on finite numbers: \<open>Infinity\<close> when there is no argument.\<close>

fun Math_min :: "real list \<Rightarrow> jsnum" where
  "Math_min [] = PosInf"
| "Math_min (x # xs) = Num (fold min xs x)"

text \<open>The comparison \<open>q > 0\<close> on a JavaScript number (false on \<open>NaN\<close>).\<close>

fun js_gt0 :: "jsnum \<Rightarrow> bool" where
  "js_gt0 (Num x) = (0 < x)"
| "js_gt0 PosInf = True"
| "js_gt0 NegInf = False"
| "js_gt0 NaN = False"

text \<open>
  \<open>a.localeCompare(b)\<close> compares two strings in the collation order of the host's locale
  and returns a negative number, zero or a positive number. Which order that is depends
  on the host, so the functions that call it take the comparison as their first argument.
\<close>

type_synonym collation = "string \<Rightarrow> string \<Rightarrow> int"

text \<open>
  One such comparison, used to run the functions on concrete pids: character by
  character, on character codes.
\<close>

fun by_code_units :: collation where
  "by_code_units [] [] = 0"
| "by_code_units [] (y # ys) = - 1"
| "by_code_units (x # xs) [] = 1"
| "by_code_units (x # xs) (y # ys) =
     (if (of_char x :: nat) < of_char y then - 1
      else if (of_char y :: nat) < of_char x then 1
      else by_code_units xs ys)"

text \<open>\<open>x || y\<close> on numbers: \<open>y\<close> when \<open>x\<close> is zero.\<close>

definition js_or :: "real \<Rightarrow> real \<Rightarrow> real" where
  "js_or x y = (if x \<noteq> 0 then x else y)"

text \<open>
  \<open>Array.prototype.sort(cmp)\<close>: a stable sort; \<open>cmp a b > 0\<close> places \<open>a\<close> after \<open>b\<close>.
\<close>

fun insert_by :: "('a \<Rightarrow> 'a \<Rightarrow> real) \<Rightarrow> 'a \<Rightarrow> 'a list \<Rightarrow> 'a list" where
  "insert_by cmp x [] = [x]"
| "insert_by cmp x (y # ys) =
     (if cmp x y \<le> 0 then x # y # ys else y # insert_by cmp x ys)"

definition sort_by :: "('a \<Rightarrow> 'a \<Rightarrow> real) \<Rightarrow> 'a list \<Rightarrow> 'a list" where
  "sort_by cmp xs = foldr (insert_by cmp) xs []"

definition idle_block :: "real \<Rightarrow> real \<Rightarrow> block" where
  "idle_block s e = \<lparr>b_pid = ''IDLE'', b_start = s, b_end = e\<rparr>"

text \<open>The record stored by the non-preemptive algorithms when a process is dispatched.\<close>

definition full_result :: "process \<Rightarrow> real \<Rightarrow> real \<Rightarrow> proc_result" where
  "full_result p st en =
     \<lparr>start = st, completion = en, tat = js_sub en (arrival p), wt = js_sub st (arrival p),
      response = js_sub st (arrival p), arrival_of = arrival p, burst_of = burst p,
      priority_of = priority p\<rparr>"

text \<open>The provisional record stored by SRTF and Round-Robin at the first dispatch.\<close>

definition first_result :: "process \<Rightarrow> real \<Rightarrow> proc_result" where
  "first_result p t =
     \<lparr>start = t, completion = 0, tat = 0, wt = 0, response = js_sub t (arrival p),
      arrival_of = arrival p, burst_of = burst p, priority_of = priority p\<rparr>"

text \<open>The in-place update of a stored record when its process completes.\<close>

definition finalize :: "process \<Rightarrow> real \<Rightarrow> proc_result \<Rightarrow> proc_result" where
  "finalize p t r =
     r\<lparr>completion := t, tat := js_sub t (arrival p),
       wt := js_sub (js_sub t (arrival p)) (burst p)\<rparr>"

text \<open>The result every algorithm returns on the empty list: no loop iteration runs.\<close>

definition empty_result :: "jsnum \<Rightarrow> sim_result" where
  "empty_result t = \<lparr>blocks = [], results = Map.empty, endTime = t\<rparr>"

section \<open>FCFS\<close>

fun fcfs_loop :: "process list \<Rightarrow> real \<Rightarrow> block list \<Rightarrow> res_map \<Rightarrow> sim_result" where
  "fcfs_loop [] time bs res = \<lparr>blocks = bs, results = res, endTime = Num time\<rparr>"
| "fcfs_loop (p # ps) time bs res =
     (let bs1 = (if time < arrival p then bs @ [idle_block time (arrival p)] else bs);
          time1 = (if time < arrival p then arrival p else time);
          st = time1;
          en = js_add time1 (burst p)
      in fcfs_loop ps en (bs1 @ [\<lparr>b_pid = pid p, b_start = st, b_end = en\<rparr>])
           (res(pid p \<mapsto> full_result p st en)))"

definition fcfs :: "process list \<Rightarrow> sim_result" where
  "fcfs processes =
     (case Math_min (map arrival processes) of
        Num time \<Rightarrow> fcfs_loop processes time [] Map.empty
      | other \<Rightarrow> empty_result other)"

section \<open>SJF and Priority (non-preemptive)\<close>

text \<open>
  The loop \<open>for(i = 0; i < n; i++) if(!arrived.has(i) && processes[i].arrival <= time)
  { queue.push(i); arrived.add(i); }\<close>, which \<open>sjf\<close>, \<open>prioritySchedule\<close> and
  \<open>roundRobin\<close> share.
\<close>

definition admit_one :: "process list \<Rightarrow> real \<Rightarrow> nat \<Rightarrow> nat list \<times> nat set \<Rightarrow> nat list \<times> nat set" where
  "admit_one processes time i qa =
     (if i \<notin> snd qa \<and> arrival (processes ! i) \<le> time
      then (fst qa @ [i], insert i (snd qa)) else qa)"

definition admit :: "process list \<Rightarrow> real \<Rightarrow> nat list \<times> nat set \<Rightarrow> nat list \<times> nat set" where
  "admit processes time qa = fold (admit_one processes time) [0..<length processes] qa"

record np_state =
  np_time :: real
  np_ready :: "nat list"
  np_used :: "nat set"
  np_completed :: nat
  np_blocks :: "block list"
  np_res :: res_map

definition np_admit :: "process list \<Rightarrow> np_state \<Rightarrow> np_state" where
  "np_admit processes s =
     (let qa = admit processes (np_time s) (np_ready s, np_used s)
      in s\<lparr>np_ready := fst qa, np_used := snd qa\<rparr>)"

definition np_idle :: "real \<Rightarrow> np_state \<Rightarrow> np_state" where
  "np_idle next s =
     s\<lparr>np_blocks := np_blocks s @ [idle_block (np_time s) next], np_time := next\<rparr>"

definition np_run :: "(process \<Rightarrow> process \<Rightarrow> real) \<Rightarrow> process list \<Rightarrow> np_state \<Rightarrow> np_state" where
  "np_run cmp processes s =
     (let sorted_ready = sort_by (\<lambda>ia ib. cmp (processes ! ia) (processes ! ib)) (np_ready s);
          idx = hd sorted_ready;
          p = processes ! idx;
          st = np_time s;
          en = js_add (np_time s) (burst p)
      in s\<lparr>np_ready := tl sorted_ready,
            np_blocks := np_blocks s @ [\<lparr>b_pid = pid p, b_start = st, b_end = en\<rparr>],
            np_res := (np_res s)(pid p \<mapsto> full_result p st en),
            np_time := en,
            np_completed := np_completed s + 1\<rparr>)"

text \<open>
  The loop of \<open>sjf\<close> and of \<open>prioritySchedule\<close>; the two functions differ in the
  comparator handed to \<open>ready.sort\<close> only. \<open>None\<close> stands for a loop that never ends.
\<close>

partial_function (option) np_loop ::
  "(process \<Rightarrow> process \<Rightarrow> real) \<Rightarrow> process list \<Rightarrow> np_state \<Rightarrow> np_state option" where
  "np_loop cmp processes s =
     (if np_completed s < length processes then
        (let s1 = np_admit processes s in
         if np_ready s1 = [] then
           (case Math_min (map (\<lambda>i. arrival (processes ! i))
                   (filter (\<lambda>i. i \<notin> np_used s1) [0..<length processes])) of
              Num next \<Rightarrow> np_loop cmp processes (np_idle next s1)
            | other \<Rightarrow> Some s1)
         else np_loop cmp processes (np_run cmp processes s1))
      else Some s)"

definition np_schedule :: "(process \<Rightarrow> process \<Rightarrow> real) \<Rightarrow> process list \<Rightarrow> sim_result option" where
  "np_schedule cmp processes =
     (case Math_min (map arrival processes) of
        Num time \<Rightarrow>
          map_option (\<lambda>s. \<lparr>blocks = np_blocks s, results = np_res s, endTime = Num (np_time s)\<rparr>)
            (np_loop cmp processes
               \<lparr>np_time = time, np_ready = [], np_used = {}, np_completed = 0,
                np_blocks = [], np_res = Map.empty\<rparr>)
      | other \<Rightarrow> Some (empty_result other))"

definition sjf_cmp :: "collation \<Rightarrow> process \<Rightarrow> process \<Rightarrow> real" where
  "sjf_cmp localeCompare a b =
     js_or (js_sub (burst a) (burst b))
       (js_or (js_sub (arrival a) (arrival b)) (of_int (localeCompare (pid a) (pid b))))"

definition priority_cmp :: "collation \<Rightarrow> process \<Rightarrow> process \<Rightarrow> real" where
  "priority_cmp localeCompare a b =
     js_or (js_sub (priority a) (priority b))
       (js_or (js_sub (arrival a) (arrival b)) (of_int (localeCompare (pid a) (pid b))))"

definition sjf :: "collation \<Rightarrow> process list \<Rightarrow> sim_result option" where
  "sjf localeCompare processes = np_schedule (sjf_cmp localeCompare) processes"

definition prioritySchedule :: "collation \<Rightarrow> process list \<Rightarrow> sim_result option" where
  "prioritySchedule localeCompare processes = np_schedule (priority_cmp localeCompare) processes"

section \<open>SRTF (preemptive, one tick at a time)\<close>

record srtf_state =
  s_time :: real
  s_rem :: "real list"
  s_started :: "bool list"
  s_lastPID :: "string option"
  s_blockStart :: real
  s_done :: "nat set"
  s_blocks :: "block list"
  s_res :: res_map

text \<open>
  The test that makes candidate \<open>i\<close> replace \<open>best\<close>. \<open>best = None\<close> stands for
  \<open>best = -1\<close> with \<open>bestRem = Infinity\<close>: there \<open>rem[i] < bestRem\<close> holds. Otherwise
  \<open>bestRem\<close> is \<open>rem[best]\<close>, as the two are always assigned together.
\<close>

definition srtf_better :: "collation \<Rightarrow> process list \<Rightarrow> real list \<Rightarrow> nat \<Rightarrow> nat option \<Rightarrow> bool" where
  "srtf_better localeCompare processes rem i best =
     (case best of
        None \<Rightarrow> True
      | Some b \<Rightarrow>
          rem ! i < rem ! b
          \<or> (rem ! i = rem ! b
              \<and> js_or (js_sub (arrival (processes ! i)) (arrival (processes ! b))) 0 < 0)
          \<or> (rem ! i = rem ! b \<and> localeCompare (pid (processes ! i)) (pid (processes ! b)) < 0))"

definition srtf_consider ::
  "collation \<Rightarrow> process list \<Rightarrow> real list \<Rightarrow> nat set \<Rightarrow> real \<Rightarrow> nat \<Rightarrow> nat option \<Rightarrow> nat option" where
  "srtf_consider localeCompare processes rem dn time i best =
     (if i \<in> dn then best
      else if arrival (processes ! i) \<le> time \<and> rem ! i > 0
      then (if srtf_better localeCompare processes rem i best then Some i else best)
      else best)"

definition srtf_pick :: "collation \<Rightarrow> process list \<Rightarrow> srtf_state \<Rightarrow> nat option" where
  "srtf_pick localeCompare processes s =
     fold (srtf_consider localeCompare processes (s_rem s) (s_done s) (s_time s))
       [0..<length processes] None"

text \<open>Closing the running block and opening the next one, when the identity changes.\<close>

definition srtf_switch :: "string \<Rightarrow> srtf_state \<Rightarrow> srtf_state" where
  "srtf_switch name s =
     (if s_lastPID s \<noteq> Some name then
        s\<lparr>s_blocks :=
             (case s_lastPID s of
                None \<Rightarrow> s_blocks s
              | Some l \<Rightarrow> s_blocks s @ [\<lparr>b_pid = l, b_start = s_blockStart s, b_end = s_time s\<rparr>]),
           s_lastPID := Some name,
           s_blockStart := s_time s\<rparr>
      else s)"

definition srtf_idle :: "srtf_state \<Rightarrow> srtf_state" where
  "srtf_idle s = (let s1 = srtf_switch ''IDLE'' s in s1\<lparr>s_time := js_add (s_time s1) 1\<rparr>)"

definition srtf_run :: "process list \<Rightarrow> nat \<Rightarrow> srtf_state \<Rightarrow> error + srtf_state" where
  "srtf_run processes best s =
     (let p = processes ! best;
          s1 = (if \<not> s_started s ! best
                then s\<lparr>s_started := (s_started s)[best := True],
                       s_res := (s_res s)(pid p \<mapsto> first_result p (s_time s))\<rparr>
                else s);
          s2 = srtf_switch (pid p) s1;
          s3 = s2\<lparr>s_rem := (s_rem s2)[best := js_sub (s_rem s2 ! best) 1],
                  s_time := js_add (s_time s2) 1\<rparr>
      in if s_rem s3 ! best = 0 then
           (case s_res s3 (pid p) of
              None \<Rightarrow> Inl TypeError
            | Some r \<Rightarrow>
                Inr (s3\<lparr>s_res := (s_res s3)(pid p \<mapsto> finalize p (s_time s3) r),
                        s_done := insert best (s_done s3)\<rparr>))
         else Inr s3)"

partial_function (option) srtf_loop ::
  "collation \<Rightarrow> process list \<Rightarrow> srtf_state \<Rightarrow> (error + srtf_state) option" where
  "srtf_loop localeCompare processes s =
     (if card (s_done s) < length processes then
        (case srtf_pick localeCompare processes s of
           None \<Rightarrow> srtf_loop localeCompare processes (srtf_idle s)
         | Some best \<Rightarrow>
             (case srtf_run processes best s of
                Inl e \<Rightarrow> Some (Inl e)
              | Inr s' \<Rightarrow> srtf_loop localeCompare processes s'))
      else Some (Inr s))"

definition srtf_finish :: "srtf_state \<Rightarrow> sim_result" where
  "srtf_finish s =
     (let bs = (case s_lastPID s of
                  None \<Rightarrow> s_blocks s
                | Some l \<Rightarrow> s_blocks s @ [\<lparr>b_pid = l, b_start = s_blockStart s, b_end = s_time s\<rparr>])
      in \<lparr>blocks = filter (\<lambda>b. b_end b > b_start b) bs, results = s_res s,
          endTime = Num (s_time s)\<rparr>)"

definition srtf_init :: "process list \<Rightarrow> real \<Rightarrow> srtf_state" where
  "srtf_init processes time =
     \<lparr>s_time = time, s_rem = map burst processes,
      s_started = replicate (length processes) False, s_lastPID = None,
      s_blockStart = time, s_done = {}, s_blocks = [], s_res = Map.empty\<rparr>"

text \<open>\<open>None\<close>: the loop never ends; \<open>Some (Inl e)\<close>: an exception; \<open>Some (Inr r)\<close>: \<open>r\<close> is returned.\<close>

definition srtf :: "collation \<Rightarrow> process list \<Rightarrow> (error + sim_result) option" where
  "srtf localeCompare processes =
     (case Math_min (map arrival processes) of
        Num time \<Rightarrow>
          (case srtf_loop localeCompare processes (srtf_init processes time) of
             None \<Rightarrow> None
           | Some (Inl e) \<Rightarrow> Some (Inl e)
           | Some (Inr s) \<Rightarrow> Some (Inr (srtf_finish s)))
      | other \<Rightarrow> Some (Inr (empty_result other)))"

section \<open>Round-Robin\<close>

record rr_state =
  rr_time :: real
  rr_rem :: "real list"
  rr_firstStart :: "real option list"
  rr_queue :: "nat list"
  rr_arrived :: "nat set"
  rr_blocks :: "block list"
  rr_res :: res_map

text \<open>
  Past the guard \<open>if(!(q>0)) throw\<close> the quantum is a positive number or \<open>Infinity\<close>;
  the loop takes it as \<open>Some x\<close> or \<open>None\<close> (for \<open>Infinity\<close>), and
  \<open>Math.min(q, rem[i])\<close> is then a finite number.
\<close>

definition rr_slice :: "real option \<Rightarrow> real \<Rightarrow> real" where
  "rr_slice q r = (case q of Some x \<Rightarrow> min x r | None \<Rightarrow> r)"

definition rr_admit :: "process list \<Rightarrow> rr_state \<Rightarrow> rr_state" where
  "rr_admit processes s =
     (let qa = admit processes (rr_time s) (rr_queue s, rr_arrived s)
      in s\<lparr>rr_queue := fst qa, rr_arrived := snd qa\<rparr>)"

text \<open>The branch taken when the queue is empty: jump to the arrival of \<open>nextIdx\<close>.\<close>

definition rr_idle :: "process list \<Rightarrow> nat \<Rightarrow> rr_state \<Rightarrow> rr_state" where
  "rr_idle processes nextIdx s =
     (let nextTime = arrival (processes ! nextIdx)
      in rr_admit processes
           (s\<lparr>rr_blocks := rr_blocks s @ [idle_block (rr_time s) nextTime],
              rr_time := nextTime\<rparr>))"

text \<open>One dispatch: \<open>queue.shift()\<close>, the run, the admissions, then re-enqueue or finalize.\<close>

definition rr_dispatch :: "process list \<Rightarrow> real option \<Rightarrow> rr_state \<Rightarrow> error + rr_state" where
  "rr_dispatch processes q s =
     (let i = hd (rr_queue s);
          p = processes ! i;
          s1 = s\<lparr>rr_queue := tl (rr_queue s)\<rparr>;
          s2 = (if rr_firstStart s1 ! i = None
                then s1\<lparr>rr_firstStart := (rr_firstStart s1)[i := Some (rr_time s1)],
                        rr_res := (rr_res s1)(pid p \<mapsto> first_result p (rr_time s1))\<rparr>
                else s1);
          run = rr_slice q (rr_rem s2 ! i);
          st = rr_time s2;
          en = js_add (rr_time s2) run;
          s3 = s2\<lparr>rr_blocks := rr_blocks s2 @ [\<lparr>b_pid = pid p, b_start = st, b_end = en\<rparr>],
                  rr_time := en,
                  rr_rem := (rr_rem s2)[i := js_sub (rr_rem s2 ! i) run]\<rparr>;
          s4 = rr_admit processes s3
      in if rr_rem s4 ! i > 0 then Inr (s4\<lparr>rr_queue := rr_queue s4 @ [i]\<rparr>)
         else (case rr_res s4 (pid p) of
                 None \<Rightarrow> Inl TypeError
               | Some r \<Rightarrow> Inr (s4\<lparr>rr_res := (rr_res s4)(pid p \<mapsto> finalize p (rr_time s4) r)\<rparr>)))"

partial_function (option) rr_loop ::
  "process list \<Rightarrow> real option \<Rightarrow> rr_state \<Rightarrow> (error + rr_state) option" where
  "rr_loop processes q s =
     (if rr_queue s \<noteq> [] \<or> card (rr_arrived s) < length processes then
        (if rr_queue s = [] then
           (case find (\<lambda>i. i \<notin> rr_arrived s) [0..<length processes] of
              None \<Rightarrow> Some (Inr s)
            | Some nextIdx \<Rightarrow> rr_loop processes q (rr_idle processes nextIdx s))
         else
           (case rr_dispatch processes q s of
              Inl e \<Rightarrow> Some (Inl e)
            | Inr s' \<Rightarrow> rr_loop processes q s'))
      else Some (Inr s))"

definition rr_init :: "process list \<Rightarrow> real \<Rightarrow> rr_state" where
  "rr_init processes time =
     (let queue = filter (\<lambda>i. arrival (processes ! i) \<le> time) [0..<length processes]
      in \<lparr>rr_time = time, rr_rem = map burst processes,
          rr_firstStart = replicate (length processes) None,
          rr_queue = queue, rr_arrived = set queue, rr_blocks = [], rr_res = Map.empty\<rparr>)"

definition InvalidConfiguration :: error where
  "InvalidConfiguration = Error ''Quantum must be a positive number for Round Robin''"

definition roundRobin :: "process list \<Rightarrow> jsnum \<Rightarrow> (error + sim_result) option" where
  "roundRobin processes q =
     (if \<not> js_gt0 q then Some (Inl InvalidConfiguration)
      else
        (case Math_min (map arrival processes) of
           Num time \<Rightarrow>
             (case rr_loop processes (case q of Num x \<Rightarrow> Some x | other \<Rightarrow> None)
                     (rr_init processes time) of
                None \<Rightarrow> None
              | Some (Inl e) \<Rightarrow> Some (Inl e)
              | Some (Inr s) \<Rightarrow>
                  Some (Inr \<lparr>blocks = rr_blocks s, results = rr_res s, endTime = Num (rr_time s)\<rparr>))
         | other \<Rightarrow> Some (Inr (empty_result other))))"

section \<open>Reading and validating the process table; dispatch to the algorithm\<close>

text \<open>
  A table row as \<open>readProcesses\<close> sees it: the trimmed text of the pid field and the
  three numbers that \<open>Number(...)\<close> made of the other fields.
\<close>

record row =
  row_pid :: string
  row_at :: jsnum
  row_bt :: jsnum
  row_pr :: jsnum

fun read_rows :: "row list \<Rightarrow> string set \<Rightarrow> process list \<Rightarrow> error + process list" where
  "read_rows [] seenPIDs procs = Inr procs"
| "read_rows (tr # rows) seenPIDs procs =
     (if row_pid tr = [] then Inl (Error ''PID missing in one of the rows.'')
      else if row_pid tr \<in> seenPIDs then Inl (Error (''Duplicate PID: '' @ row_pid tr))
      else case row_at tr of
        Num a_t \<Rightarrow>
          if \<not> a_t \<ge> 0 then Inl (Error (''Invalid arrival for '' @ row_pid tr))
          else (case row_bt tr of
            Num b_t \<Rightarrow>
              if \<not> b_t > 0 then Inl (Error (''Invalid burst for '' @ row_pid tr))
              else (case row_pr tr of
                Num p_r \<Rightarrow>
                  read_rows rows (insert (row_pid tr) seenPIDs)
                    (procs @ [\<lparr>pid = row_pid tr, arrival = a_t, burst = b_t, priority = p_r\<rparr>])
              | other \<Rightarrow> Inl (Error (''Invalid priority for '' @ row_pid tr)))
          | other \<Rightarrow> Inl (Error (''Invalid burst for '' @ row_pid tr)))
      | other \<Rightarrow> Inl (Error (''Invalid arrival for '' @ row_pid tr)))"

definition read_cmp :: "collation \<Rightarrow> process \<Rightarrow> process \<Rightarrow> real" where
  "read_cmp localeCompare a b =
     js_or (js_sub (arrival a) (arrival b)) (of_int (localeCompare (pid a) (pid b)))"

definition readProcesses :: "collation \<Rightarrow> row list \<Rightarrow> error + process list" where
  "readProcesses localeCompare rows =
     (case read_rows rows {} [] of
        Inl e \<Rightarrow> Inl e
      | Inr procs \<Rightarrow> Inr (sort_by (read_cmp localeCompare) procs))"

text \<open>
  \<open>compute\<close> up to the call of the algorithm: what it reports through \<open>setError\<close> (or
  lets escape as an exception) is \<open>Inl\<close>, the \<open>out\<close> handed to the renderers is \<open>Inr\<close>.
  An \<open>algo\<close> that names no algorithm leaves \<open>out\<close> undefined, and \<open>out.blocks\<close> raises.
\<close>

definition compute :: "collation \<Rightarrow> row list \<Rightarrow> string \<Rightarrow> jsnum \<Rightarrow> (error + sim_result) option" where
  "compute localeCompare rows algo q =
     (case readProcesses localeCompare rows of
        Inl e \<Rightarrow> Some (Inl e)
      | Inr procs \<Rightarrow>
          if procs = [] then Some (Inl (Error ''Add at least one process.''))
          else if algo = ''FCFS'' then Some (Inr (fcfs procs))
          else if algo = ''SJF'' then map_option Inr (sjf localeCompare procs)
          else if algo = ''SRTF'' then srtf localeCompare procs
          else if algo = ''PR'' then map_option Inr (prioritySchedule localeCompare procs)
          else if algo = ''RR'' then roundRobin procs q
          else Some (Inl TypeError))"

section \<open>Vocabulary of the properties\<close>

text \<open>The value a call returns, when it returns one.\<close>

definition returned :: "(error + sim_result) option \<Rightarrow> sim_result option" where
  "returned x = (case x of Some (Inr r) \<Rightarrow> Some r | Some (Inl e) \<Rightarrow> None | None \<Rightarrow> None)"

definition completion_of :: "sim_result \<Rightarrow> string \<Rightarrow> real option" where
  "completion_of r name = map_option completion (results r name)"

text \<open>
  \<open>chain a bs e\<close>: the blocks \<open>bs\<close>, in the order given, tile the interval from \<open>a\<close> to
  \<open>e\<close>: the first starts at \<open>a\<close>, each has \<open>end > start\<close>, each ends where the next
  starts, and the last ends at \<open>e\<close>.
\<close>

fun chain :: "real \<Rightarrow> block list \<Rightarrow> real \<Rightarrow> bool" where
  "chain a [] e = (a = e)"
| "chain a (b # bs) e = (b_start b = a \<and> b_start b < b_end b \<and> chain (b_end b) bs e)"


text \<open>Service time and number of the non-idle blocks that carry a given pid.\<close>

definition service :: "string \<Rightarrow> block list \<Rightarrow> real" where
  "service name bs =
     sum_list (map (\<lambda>b. b_end b - b_start b)
       (filter (\<lambda>b. b_pid b = name \<and> b_pid b \<noteq> ''IDLE'') bs))"

definition occurrences :: "string \<Rightarrow> block list \<Rightarrow> nat" where
  "occurrences name bs = length (filter (\<lambda>b. b_pid b = name \<and> b_pid b \<noteq> ''IDLE'') bs)"


definition single_block :: "process list \<Rightarrow> sim_result \<Rightarrow> bool" where
  "single_block ps r = (\<forall>p\<in>set ps. occurrences (pid p) (blocks r) = 1)"

text \<open>
  A valid process set: not empty, every arrival \<open>\<ge> 0\<close>, every burst \<open>> 0\<close>, pids unique.
\<close>

definition valid :: "process list \<Rightarrow> bool" where
  "valid ps = (ps \<noteq> [] \<and> (\<forall>p\<in>set ps. 0 \<le> arrival p \<and> 0 < burst p) \<and> distinct (map pid ps))"

text \<open>A stored record whose completion fields have been filled in for process \<open>p\<close>.\<close>

definition finalized :: "process \<Rightarrow> proc_result \<Rightarrow> bool" where
  "finalized p e =
     (tat e = completion e - arrival p \<and> wt e = tat e - burst p \<and> 0 \<le> wt e)"

text \<open>
  The numbers on which the arithmetic of the algorithms is exact. \<open>on_grid k x\<close>: \<open>x\<close> is a
  whole multiple of \<open>2^-k\<close>. \<open>fits k ps\<close>: every arrival and every burst is a whole
  multiple of \<open>2^-k\<close>, and the latest arrival plus the sum of all bursts, an upper bound
  of every clock value, is at most \<open>2^53\<close> such units. For \<open>k = 0\<close> these are whole
  numbers up to \<open>2^53\<close>.
\<close>

definition on_grid :: "nat \<Rightarrow> real \<Rightarrow> bool" where
  "on_grid k x = (x * 2 ^ k \<in> \<int>)"

definition horizon :: "process list \<Rightarrow> real" where
  "horizon ps = Max (arrival ` set ps) + sum_list (map burst ps)"

definition fits :: "nat \<Rightarrow> process list \<Rightarrow> bool" where
  "fits k ps =
     ((\<forall>p\<in>set ps. on_grid k (arrival p) \<and> on_grid k (burst p)) \<and> horizon ps * 2 ^ k \<le> 2 ^ 53)"



text \<open>
  What the sorts need of the host's comparison: it is a total preorder on strings (its
  sign flips when the arguments are swapped, and \<open>\<le> 0\<close> is transitive), and it tells
  apart the strings of a given set.
\<close>

definition total_preorder :: "collation \<Rightarrow> bool" where
  "total_preorder lc =
     ((\<forall>x y. (lc x y < 0) = (0 < lc y x)) \<and> (\<forall>x y z. lc x y \<le> 0 \<longrightarrow> lc y z \<le> 0 \<longrightarrow> lc x z \<le> 0))"

definition separates :: "collation \<Rightarrow> string set \<Rightarrow> bool" where
  "separates lc S = (\<forall>x\<in>S. \<forall>y\<in>S. lc x y \<le> 0 \<longrightarrow> lc y x \<le> 0 \<longrightarrow> x = y)"


text \<open>The states the loop of \<open>roundRobin\<close> passes through at its head.\<close>

inductive rr_reach :: "process list \<Rightarrow> real option \<Rightarrow> rr_state \<Rightarrow> bool" for ps q where
  init: "Math_min (map arrival ps) = Num a \<Longrightarrow> rr_reach ps q (rr_init ps a)"
| idle: "rr_reach ps q s \<Longrightarrow> rr_queue s = [] \<Longrightarrow>
         find (\<lambda>i. i \<notin> rr_arrived s) [0..<length ps] = Some nextIdx \<Longrightarrow>
         rr_reach ps q (rr_idle ps nextIdx s)"
| dispatch: "rr_reach ps q s \<Longrightarrow> rr_queue s \<noteq> [] \<Longrightarrow> rr_dispatch ps q s = Inr s' \<Longrightarrow>
         rr_reach ps q s'"

code_pred (modes: i \<Rightarrow> i \<Rightarrow> o \<Rightarrow> bool) rr_reach .

text \<open>
  In a state about to dispatch the head of the queue: the length of the run, and the
  processes not yet admitted whose arrival is no later than the end of that run, in the
  order of the list.
\<close>

definition rr_run :: "real option \<Rightarrow> rr_state \<Rightarrow> real" where
  "rr_run q s = rr_slice q (rr_rem s ! hd (rr_queue s))"

definition rr_newly :: "process list \<Rightarrow> real option \<Rightarrow> rr_state \<Rightarrow> nat list" where
  "rr_newly ps q s =
     filter (\<lambda>k. k \<notin> rr_arrived s \<and> arrival (ps ! k) \<le> js_add (rr_time s) (rr_run q s))
       [0..<length ps]"

section \<open>Invariants and measures of the loops\<close>

text \<open>
  The loop of \<open>sjf\<close> and \<open>prioritySchedule\<close>: what it maintains on every list
  (\<open>np_struct\<close>, \<open>np_occ\<close>), what it maintains where the arithmetic is exact
  (\<open>np_exact\<close>), and the measure that decreases.
\<close>

definition np_ran :: "np_state \<Rightarrow> nat set" where
  "np_ran s = np_used s - set (np_ready s)"

definition np_struct :: "process list \<Rightarrow> np_state \<Rightarrow> bool" where
  "np_struct ps s =
     (np_used s \<subseteq> {0..<length ps} \<and> set (np_ready s) \<subseteq> np_used s \<and> distinct (np_ready s)
      \<and> np_completed s + length (np_ready s) = card (np_used s))"

text \<open>
  Two states of the loop of \<open>sjf\<close> or \<open>prioritySchedule\<close>, one on the list \<open>ps\<close> and one
  on the list \<open>ps'\<close>, that hold the same processes: same clock, blocks and results, the
  same processes waiting and the same processes admitted.
\<close>

definition np_same :: "process list \<Rightarrow> process list \<Rightarrow> np_state \<Rightarrow> np_state \<Rightarrow> bool" where
  "np_same ps ps' s s' =
     (np_time s' = np_time s \<and> np_completed s' = np_completed s
      \<and> np_blocks s' = np_blocks s \<and> np_res s' = np_res s
      \<and> np_used s \<subseteq> {0..<length ps} \<and> np_used s' \<subseteq> {0..<length ps'}
      \<and> set (np_ready s) \<subseteq> {0..<length ps} \<and> set (np_ready s') \<subseteq> {0..<length ps'}
      \<and> mset (map (nth ps) (np_ready s)) = mset (map (nth ps') (np_ready s'))
      \<and> nth ps ` np_used s = nth ps' ` np_used s')"

definition np_occ :: "process list \<Rightarrow> np_state \<Rightarrow> bool" where
  "np_occ ps s =
     ((\<forall>name. name \<noteq> ''IDLE'' \<longrightarrow>
         occurrences name (np_blocks s) = card {i \<in> np_ran s. pid (ps ! i) = name})
      \<and> dom (np_res s) = (\<lambda>i. pid (ps ! i)) ` np_ran s
      \<and> (np_blocks s = [] \<longrightarrow> np_completed s = 0))"


definition np_measure :: "process list \<Rightarrow> np_state \<Rightarrow> nat" where
  "np_measure ps s =
     2 * (length ps - np_completed s) + (if np_ready (np_admit ps s) = [] then 1 else 0)"

text \<open>
  The loop of \<open>roundRobin\<close>: what it maintains on every list (\<open>rr_sound\<close>), and what it
  maintains where the arithmetic is exact.
\<close>

definition rr_sound :: "process list \<Rightarrow> rr_state \<Rightarrow> bool" where
  "rr_sound ps s =
     (length (rr_rem s) = length ps \<and> length (rr_firstStart s) = length ps
      \<and> set (rr_queue s) \<subseteq> {0..<length ps} \<and> rr_arrived s \<subseteq> {0..<length ps}
      \<and> (\<forall>i<length ps. rr_firstStart s ! i \<noteq> None \<longrightarrow> rr_res s (pid (ps ! i)) \<noteq> None)
      \<and> (\<forall>i\<in>rr_arrived s. rr_firstStart s ! i = None \<longrightarrow> i \<in> set (rr_queue s))
      \<and> dom (rr_res s) \<subseteq> pid ` set ps)"

definition rr_struct :: "process list \<Rightarrow> rr_state \<Rightarrow> bool" where
  "rr_struct ps s =
     (length (rr_rem s) = length ps \<and> length (rr_firstStart s) = length ps
      \<and> rr_arrived s = {i. i < length ps \<and> arrival (ps ! i) \<le> rr_time s}
      \<and> distinct (rr_queue s)
      \<and> set (rr_queue s) = {i \<in> rr_arrived s. 0 < rr_rem s ! i}
      \<and> (\<forall>i<length ps. 0 \<le> rr_rem s ! i \<and> (i \<notin> rr_arrived s \<longrightarrow> rr_rem s ! i = burst (ps ! i)))
      \<and> (\<forall>i\<in>rr_arrived s. arrival (ps ! i) + (burst (ps ! i) - rr_rem s ! i) \<le> rr_time s))"

definition rr_chain :: "real \<Rightarrow> rr_state \<Rightarrow> bool" where
  "rr_chain a s =
     (chain a (rr_blocks s) (rr_time s) \<and> (rr_blocks s = [] \<longrightarrow> rr_queue s \<noteq> []))"

definition rr_serv :: "process list \<Rightarrow> rr_state \<Rightarrow> bool" where
  "rr_serv ps s =
     (\<forall>name. name \<noteq> ''IDLE'' \<longrightarrow>
        service name (rr_blocks s) =
          (\<Sum>i | i < length ps \<and> pid (ps ! i) = name. burst (ps ! i) - rr_rem s ! i))"

definition rr_results :: "process list \<Rightarrow> rr_state \<Rightarrow> bool" where
  "rr_results ps s =
     ((\<forall>i<length ps.
         (rr_firstStart s ! i = None \<longrightarrow>
            rr_res s (pid (ps ! i)) = None \<and> rr_rem s ! i = burst (ps ! i))
         \<and> (rr_firstStart s ! i \<noteq> None \<longrightarrow>
              (\<exists>e. rr_res s (pid (ps ! i)) = Some e
                   \<and> (rr_rem s ! i = 0 \<longrightarrow> finalized (ps ! i) e))))
      \<and> dom (rr_res s) \<subseteq> pid ` set ps)"

definition rr_exact :: "nat \<Rightarrow> process list \<Rightarrow> rr_state \<Rightarrow> bool" where
  "rr_exact k ps s =
     (on_grid k (rr_time s) \<and> 0 \<le> rr_time s
      \<and> (\<forall>i<length ps. on_grid k (rr_rem s ! i) \<and> rr_rem s ! i \<le> burst (ps ! i))
      \<and> rr_time s + sum_list (rr_rem s) \<le> horizon ps)"

definition rr_inv :: "nat \<Rightarrow> process list \<Rightarrow> real \<Rightarrow> rr_state \<Rightarrow> bool" where
  "rr_inv k ps a s =
     (rr_struct ps s \<and> rr_chain a s \<and> rr_serv ps s \<and> rr_results ps s \<and> rr_exact k ps s)"

text \<open>The number of dispatches a remaining time still needs.\<close>

definition dispatches_left :: "real option \<Rightarrow> real \<Rightarrow> nat" where
  "dispatches_left q r =
     (case q of Some x \<Rightarrow> nat \<lceil>r / x\<rceil> | None \<Rightarrow> (if 0 < r then 1 else 0))"

definition rr_measure :: "process list \<Rightarrow> real option \<Rightarrow> rr_state \<Rightarrow> nat" where
  "rr_measure ps q s =
     sum_list (map (dispatches_left q) (rr_rem s)) + (length ps - card (rr_arrived s))"

text \<open>
  The quantum past the guard, where the arithmetic is exact: a positive multiple of
  \<open>2^-k\<close>, or \<open>None\<close> for \<open>Infinity\<close>.
\<close>

definition good_quantum :: "nat \<Rightarrow> real option \<Rightarrow> bool" where
  "good_quantum k q = (case q of Some x \<Rightarrow> 0 < x \<and> on_grid k x | None \<Rightarrow> True)"




definition srtf_sound :: "process list \<Rightarrow> srtf_state \<Rightarrow> bool" where
  "srtf_sound ps s =
     (length (s_rem s) = length ps \<and> length (s_started s) = length ps
      \<and> s_done s \<subseteq> {0..<length ps}
      \<and> (\<forall>k\<in>s_done s. s_started s ! k)
      \<and> dom (s_res s) = (\<lambda>k. pid (ps ! k)) ` {k. k < length ps \<and> s_started s ! k})"




section \<open>Concrete inputs\<close>

text \<open>The Round-Robin scenario of the specification: P1(0,5), P2(1,3), quantum 2.\<close>

definition rr_scenario :: "process list" where
  "rr_scenario =
     [\<lparr>pid = ''P1'', arrival = 0, burst = 5, priority = 0\<rparr>,
      \<lparr>pid = ''P2'', arrival = 1, burst = 3, priority = 0\<rparr>]"

text \<open>
  Two processes that tie on remaining time at tick 1: B(arrival 0, burst 3) and
  A(arrival 1, burst 2), in the order \<open>readProcesses\<close> gives them (by arrival).
\<close>

definition tie_input :: "process list" where
  "tie_input =
     [\<lparr>pid = ''B'', arrival = 0, burst = 3, priority = 0\<rparr>,
      \<lparr>pid = ''A'', arrival = 1, burst = 2, priority = 0\<rparr>]"

text \<open>The rows that \<open>readProcesses\<close> turns into \<open>tie_input\<close>.\<close>

definition tie_rows :: "row list" where
  "tie_rows =
     [\<lparr>row_pid = ''A'', row_at = Num 1, row_bt = Num 2, row_pr = Num 0\<rparr>,
      \<lparr>row_pid = ''B'', row_at = Num 0, row_bt = Num 3, row_pr = Num 0\<rparr>]"

text \<open>The state of \<open>srtf\<close> on \<open>tie_input\<close> after its first tick.\<close>

definition tie_state :: srtf_state where
  "tie_state =
     \<lparr>s_time = 1, s_rem = [2, 2], s_started = [True, False], s_lastPID = Some ''B'',
      s_blockStart = 0, s_done = {}, s_blocks = [],
      s_res = [''B'' \<mapsto> first_result (tie_input ! 0) 0]\<rparr>"

text \<open>One process with a burst of one and a half time units.\<close>

definition half_input :: "process list" where
  "half_input = [\<lparr>pid = ''P1'', arrival = 0, burst = 3 / 2, priority = 0\<rparr>]"

text \<open>The table row that \<open>readProcesses\<close> turns into \<open>half_input\<close>.\<close>

definition half_rows :: "row list" where
  "half_rows = [\<lparr>row_pid = ''P1'', row_at = Num 0, row_bt = Num (3 / 2), row_pr = Num 0\<rparr>]"

text \<open>What stays true of \<open>srtf\<close> on \<open>half_input\<close> at every tick: nothing is ever done.\<close>

definition half_inv :: "srtf_state \<Rightarrow> bool" where
  "half_inv s =
     (s_done s = {} \<and> (s_rem s = [3 / 2] \<or> s_rem s = [1 / 2] \<or> s_rem s = [- (1 / 2)]))"

text \<open>The same two processes in the two possible orders.\<close>

definition in_order :: "process list" where
  "in_order =
     [\<lparr>pid = ''P1'', arrival = 0, burst = 1, priority = 0\<rparr>,
      \<lparr>pid = ''P2'', arrival = 10, burst = 1, priority = 0\<rparr>]"

definition swapped :: "process list" where
  "swapped =
     [\<lparr>pid = ''P2'', arrival = 10, burst = 1, priority = 0\<rparr>,
      \<lparr>pid = ''P1'', arrival = 0, burst = 1, priority = 0\<rparr>]"

text \<open>Two processes with the same pid, and the table rows that carry them.\<close>

definition dup_input :: "process list" where
  "dup_input =
     [\<lparr>pid = ''P1'', arrival = 0, burst = 2, priority = 0\<rparr>,
      \<lparr>pid = ''P1'', arrival = 1, burst = 3, priority = 0\<rparr>]"

definition dup_rows :: "row list" where
  "dup_rows =
     [\<lparr>row_pid = ''P1'', row_at = Num 0, row_bt = Num 2, row_pr = Num 0\<rparr>,
      \<lparr>row_pid = ''P1'', row_at = Num 1, row_bt = Num 3, row_pr = Num 0\<rparr>]"








text \<open>
  Three processes of which the second arrives after the third, and the same three in
  the order of their arrivals.
\<close>

definition crossed_input :: "process list" where
  "crossed_input =
     [\<lparr>pid = ''P1'', arrival = 0, burst = 4, priority = 0\<rparr>,
      \<lparr>pid = ''P2'', arrival = 2, burst = 1, priority = 0\<rparr>,
      \<lparr>pid = ''P3'', arrival = 1, burst = 1, priority = 0\<rparr>]"

definition straight_input :: "process list" where
  "straight_input =
     [\<lparr>pid = ''P1'', arrival = 0, burst = 4, priority = 0\<rparr>,
      \<lparr>pid = ''P3'', arrival = 1, burst = 1, priority = 0\<rparr>,
      \<lparr>pid = ''P2'', arrival = 2, burst = 1, priority = 0\<rparr>]"

text \<open>The table rows in the order of \<open>crossed_input\<close>.\<close>

definition crossed_rows :: "row list" where
  "crossed_rows =
     [\<lparr>row_pid = ''P1'', row_at = Num 0, row_bt = Num 4, row_pr = Num 0\<rparr>,
      \<lparr>row_pid = ''P2'', row_at = Num 2, row_bt = Num 1, row_pr = Num 0\<rparr>,
      \<lparr>row_pid = ''P3'', row_at = Num 1, row_bt = Num 1, row_pr = Num 0\<rparr>]"

text \<open>Two processes that arrive together, in the two possible orders.\<close>

definition together :: "process list" where
  "together =
     [\<lparr>pid = ''P1'', arrival = 0, burst = 1, priority = 0\<rparr>,
      \<lparr>pid = ''P2'', arrival = 0, burst = 1, priority = 0\<rparr>]"


section \<open>Rounding to the nearest double\<close>

lemma expo_bounds:
  assumes "x \<noteq> 0"
  shows "2 powi expo x \<le> \<bar>x\<bar>" and "\<bar>x\<bar> < 2 powi (expo x + 1)"
proof -
  have "2 powi expo x \<le> \<bar>x\<bar> \<and> \<bar>x\<bar> < 2 powi (expo x + 1)"
  proof (cases "1 \<le> \<bar>x\<bar>")
    case True
    define n where "n = \<lfloor>\<bar>x\<bar>\<rfloor>"
    have n: "0 < n" using True by (simp add: n_def)
    define b where "b = bitlen n"
    from bitlen_bounds[OF n] have lo: "2 ^ nat (b - 1) \<le> n" and hi: "n < 2 ^ nat b"
      by (simp_all add: b_def)
    have b1: "1 \<le> b" using n bitlen_eq_zero_iff[of n] bitlen_nonneg[of n] by (simp add: b_def)
    have e: "expo x = b - 1" using True by (simp add: expo_def b_def n_def)
    have "(2::real) powi (b - 1) = 2 ^ nat (b - 1)" using b1 by (simp add: power_int_nonneg_exp)
    also have "\<dots> = of_int (2 ^ nat (b - 1))" by simp
    also have "\<dots> \<le> of_int n" using lo by (simp only: of_int_le_iff)
    also have "\<dots> \<le> \<bar>x\<bar>" by (simp add: n_def)
    finally have 1: "2 powi expo x \<le> \<bar>x\<bar>" by (simp add: e)
    have "n + 1 \<le> 2 ^ nat b" using hi by simp
    then have "(of_int (n + 1) :: real) \<le> of_int (2 ^ nat b)" by (simp only: of_int_le_iff)
    moreover have "\<bar>x\<bar> < of_int (n + 1)" by (simp add: n_def)
    ultimately have "\<bar>x\<bar> < 2 ^ nat b" by simp
    also have "\<dots> = 2 powi b" using b1 by (simp add: power_int_nonneg_exp)
    finally have 2: "\<bar>x\<bar> < 2 powi (expo x + 1)" by (simp add: e)
    from 1 2 show ?thesis by simp
  next
    case False
    define y where "y = 1 / \<bar>x\<bar>"
    have xp: "0 < \<bar>x\<bar>" using assms by simp
    have y1: "1 < y" using False xp by (simp add: y_def)
    define m where "m = \<lceil>y\<rceil> - 1"
    have m: "0 < m" using y1 by (simp add: m_def)
    define b where "b = bitlen m"
    from bitlen_bounds[OF m] have lo: "2 ^ nat (b - 1) \<le> m" and hi: "m < 2 ^ nat b"
      by (simp_all add: b_def)
    have b1: "1 \<le> b" using m bitlen_eq_zero_iff[of m] bitlen_nonneg[of m] by (simp add: b_def)
    have e: "expo x = - b" using False by (simp add: expo_def b_def m_def y_def)
    have "m + 1 \<le> 2 ^ nat b" using hi by simp
    then have "(of_int (m + 1) :: real) \<le> of_int (2 ^ nat b)" by (simp only: of_int_le_iff)
    moreover have "y \<le> of_int (m + 1)" by (simp add: m_def)
    ultimately have "y \<le> 2 ^ nat b" by simp
    then have "1 / 2 ^ nat b \<le> \<bar>x\<bar>" using xp by (simp add: y_def field_simps)
    moreover have "(2::real) powi (- b) = 1 / 2 ^ nat b"
      using b1 by (simp add: power_int_minus_divide power_int_nonneg_exp)
    ultimately have 1: "2 powi expo x \<le> \<bar>x\<bar>" by (simp add: e)
    have "(2::real) ^ nat (b - 1) = of_int (2 ^ nat (b - 1))" by simp
    also have "\<dots> \<le> of_int m" using lo by (simp only: of_int_le_iff)
    also have "\<dots> < y" by (simp add: m_def) linarith
    finally have "2 ^ nat (b - 1) < y" .
    then have "\<bar>x\<bar> < 1 / 2 ^ nat (b - 1)" using xp by (simp add: y_def field_simps)
    moreover have "(2::real) powi (- b + 1) = 1 / 2 ^ nat (b - 1)"
    proof -
      have "- b + 1 = - (b - 1)" by simp
      then have "(2::real) powi (- b + 1) = 1 / 2 powi (b - 1)"
        by (simp only: power_int_minus_divide)
      then show ?thesis using b1 by (simp add: power_int_nonneg_exp)
    qed
    ultimately have 2: "\<bar>x\<bar> < 2 powi (expo x + 1)" by (simp add: e)
    from 1 2 show ?thesis by simp
  qed
  then show "2 powi expo x \<le> \<bar>x\<bar>" and "\<bar>x\<bar> < 2 powi (expo x + 1)" by simp_all
qed


lemma round_even_int [simp]: "round_even (of_int n) = n"
  by (simp add: round_even_def)

lemma round_even_floor_ceiling: "round_even y = \<lfloor>y\<rfloor> \<or> round_even y = \<lceil>y\<rceil>"
proof -
  have "\<lceil>y\<rceil> = \<lfloor>y\<rfloor> + 1" if "y - of_int \<lfloor>y\<rfloor> \<noteq> 0"
    using that by (simp add: ceiling_altdef)
  then show ?thesis by (auto simp: round_even_def Let_def)
qed


lemma rd_0 [simp]: "rd 0 = 0"
  by (simp add: rd_def)

lemma rd_exact:
  assumes "\<bar>n\<bar> \<le> 2 ^ 53"
  shows "rd (of_int n * 2 powi j) = of_int n * 2 powi j"
proof (cases "n = 0")
  case True
  then show ?thesis by simp
next
  case False
  define x :: real where "x = of_int n * 2 powi j"
  have x0: "x \<noteq> 0" using False by (simp add: x_def)
  define e where "e = expo x"
  note b = expo_bounds[OF x0, folded e_def]
  have ax: "\<bar>x\<bar> = of_int \<bar>n\<bar> * 2 powi j" by (simp add: x_def abs_mult)
  have "(of_int \<bar>n\<bar> :: real) \<le> of_int (2 ^ 53)" using assms by (simp only: of_int_le_iff)
  then have nle: "(of_int \<bar>n\<bar> :: real) \<le> 2 ^ 53" by simp
  have "\<bar>x\<bar> \<le> 2 ^ 53 * 2 powi j" unfolding ax using nle by (intro mult_right_mono) simp_all
  also have "\<dots> = 2 powi (j + 53)" by (simp add: power_int_add)
  finally have up: "\<bar>x\<bar> \<le> 2 powi (j + 53)" .
  have ele: "e \<le> j + 53"
  proof (rule ccontr)
    assume "\<not> e \<le> j + 53"
    then have "j + 53 + 1 \<le> e" by simp
    then have "(2::real) powi (j + 53 + 1) \<le> 2 powi e" by (intro power_int_increasing) simp_all
    moreover have "(2::real) powi (j + 53) < 2 powi (j + 53 + 1)"
      by (intro power_int_strict_increasing) simp_all
    ultimately show False using b(1) up by simp
  qed
  have "\<exists>m::int. x = of_int m * 2 powi (e - 52)"
  proof (cases "e = j + 53")
    case True
    have "2 powi (j + 53) \<le> \<bar>x\<bar>" using b(1) True by simp
    with up have "\<bar>x\<bar> = 2 powi (j + 53)" by simp
    then have "\<bar>x\<bar> = of_int (2 ^ 52) * 2 powi (e - 52)"
      using True by (simp add: power_int_add)
    then have "x = of_int (2 ^ 52) * 2 powi (e - 52) \<or> x = of_int (- (2 ^ 52)) * 2 powi (e - 52)"
      by (cases "0 \<le> x") (simp_all add: abs_if split: if_splits)
    then show ?thesis by blast
  next
    case ne: False
    with ele have k: "0 \<le> j - (e - 52)" by simp
    have "(2::real) powi j = 2 powi (j - (e - 52)) * 2 powi (e - 52)"
      by (simp add: power_int_add[symmetric])
    also have "(2::real) powi (j - (e - 52)) = of_int (2 ^ nat (j - (e - 52)))"
      using k by (simp add: power_int_nonneg_exp)
    finally have "x = of_int (n * 2 ^ nat (j - (e - 52))) * 2 powi (e - 52)"
      by (simp add: x_def)
    then show ?thesis by blast
  qed
  then obtain m :: int where m: "x = of_int m * 2 powi (e - 52)" by blast
  then have d: "x / 2 powi (e - 52) = of_int m" by simp
  have "rd x = of_int (round_even (x / 2 powi (e - 52))) * 2 powi (e - 52)"
    using x0 by (simp add: rd_def e_def)
  also have "\<dots> = of_int m * 2 powi (e - 52)" by (simp only: d round_even_int)
  also have "\<dots> = x" by (rule m[symmetric])
  finally show ?thesis by (simp add: x_def)
qed

lemma rd_sign:
  shows "0 < x \<Longrightarrow> 0 < rd x" and "x < 0 \<Longrightarrow> rd x < 0"
proof -
  have key: "1 \<le> \<bar>x / 2 powi (expo x - 52)\<bar>" if "x \<noteq> 0"
  proof -
    have "(2::real) powi (expo x - 52) * 1 \<le> 2 powi (expo x - 52) * 2 powi 52"
      by (intro mult_left_mono) simp_all
    also have "\<dots> = 2 powi (expo x - 52 + 52)" by (subst power_int_add) simp_all
    also have "\<dots> = 2 powi expo x" by simp
    also have "\<dots> \<le> \<bar>x\<bar>" by (rule expo_bounds(1)[OF that])
    finally show ?thesis by (simp add: abs_mult field_simps)
  qed
  define y where "y = x / 2 powi (expo x - 52)"
  have fc: "\<lfloor>y\<rfloor> \<le> \<lceil>y\<rceil>" by (rule floor_le_ceiling)
  have r: "rd x = of_int (round_even y) * 2 powi (expo x - 52)" if "x \<noteq> 0"
    using that by (simp add: rd_def y_def)
  have p2: "(0::real) < 2 powi (expo x - 52)" by simp
  {
    assume x: "0 < x"
    then have "0 < y" by (simp add: y_def)
    moreover have "1 \<le> \<bar>y\<bar>" using key x by (simp add: y_def)
    ultimately have "1 \<le> y" by linarith
    then have f: "1 \<le> \<lfloor>y\<rfloor>" by simp
    from round_even_floor_ceiling[of y] have "1 \<le> round_even y"
    proof
      assume "round_even y = \<lfloor>y\<rfloor>"
      with f show ?thesis by linarith
    next
      assume "round_even y = \<lceil>y\<rceil>"
      with f fc show ?thesis by linarith
    qed
    then have "(0::real) < of_int (round_even y)" by simp
    then have "(0::real) < of_int (round_even y) * 2 powi (expo x - 52)"
      using p2 by (rule mult_pos_pos)
    then show "0 < rd x" using x r by simp
  }
  {
    assume x: "x < 0"
    then have "y < 0" by (simp add: y_def divide_neg_pos)
    moreover have "1 \<le> \<bar>y\<bar>" using key x by (simp add: y_def)
    ultimately have "y \<le> - 1" by linarith
    then have c: "\<lceil>y\<rceil> \<le> - 1" by (simp add: ceiling_le_iff)
    from round_even_floor_ceiling[of y] have "round_even y \<le> - 1"
    proof
      assume "round_even y = \<lfloor>y\<rfloor>"
      with c fc show ?thesis by linarith
    next
      assume "round_even y = \<lceil>y\<rceil>"
      with c show ?thesis by linarith
    qed
    then have "(of_int (round_even y) :: real) < 0" by simp
    then have "of_int (round_even y) * 2 powi (expo x - 52) < (0::real)"
      using p2 by (rule mult_neg_pos)
    then show "rd x < 0" using x r by simp
  }
qed

lemma rd_eq_0_iff [simp]: "rd x = 0 \<longleftrightarrow> x = 0"
  using rd_sign[of x] by (cases x "0::real" rule: linorder_cases) auto

lemma rd_less_0_iff [simp]: "rd x < 0 \<longleftrightarrow> x < 0"
proof
  assume r: "rd x < 0"
  show "x < 0"
  proof (rule ccontr)
    assume "\<not> x < 0"
    then consider "x = 0" | "0 < x" by linarith
    then show False
    proof cases
      case 1
      with r show False by simp
    next
      case 2
      from rd_sign(1)[OF 2] r show False by linarith
    qed
  qed
next
  assume "x < 0"
  then show "rd x < 0" by (rule rd_sign(2))
qed

lemma rd_greater_0_iff [simp]: "0 < rd x \<longleftrightarrow> 0 < x"
proof
  assume r: "0 < rd x"
  show "0 < x"
  proof (rule ccontr)
    assume "\<not> 0 < x"
    then consider "x = 0" | "x < 0" by linarith
    then show False
    proof cases
      case 1
      with r show False by simp
    next
      case 2
      from rd_sign(2)[OF 2] r show False by linarith
    qed
  qed
next
  assume "0 < x"
  then show "0 < rd x" by (rule rd_sign(1))
qed

lemma rd_le_0_iff [simp]: "rd x \<le> 0 \<longleftrightarrow> x \<le> 0"
  using rd_greater_0_iff[of x] by (simp only: not_less[symmetric])

lemma on_grid_add: "on_grid k x \<Longrightarrow> on_grid k y \<Longrightarrow> on_grid k (x + y)"
  by (simp add: on_grid_def distrib_right)

lemma on_grid_diff: "on_grid k x \<Longrightarrow> on_grid k y \<Longrightarrow> on_grid k (x - y)"
  by (simp add: on_grid_def left_diff_distrib)

lemma on_grid_0 [simp]: "on_grid k 0"
  by (simp add: on_grid_def)


lemma on_grid_min: "on_grid k x \<Longrightarrow> on_grid k y \<Longrightarrow> on_grid k (min x y)"
  by (simp add: min_def)

lemma rd_grid:
  assumes "on_grid k x" and "\<bar>x\<bar> * 2 ^ k \<le> 2 ^ 53"
  shows "rd x = x"
proof -
  from assms(1) obtain n :: int where n: "x * 2 ^ k = of_int n" by (auto simp: on_grid_def Ints_def)
  then have x: "x = of_int n * 2 powi (- int k)"
    by (simp add: power_int_minus_divide field_simps)
  have "(of_int \<bar>n\<bar> :: real) = \<bar>x * 2 ^ k\<bar>" using n by simp
  also have "\<dots> = \<bar>x\<bar> * 2 ^ k" by (simp add: abs_mult)
  finally have "(of_int \<bar>n\<bar> :: real) = \<bar>x\<bar> * 2 ^ k" .
  with assms(2) have "(of_int \<bar>n\<bar> :: real) \<le> of_int (2 ^ 53)" by simp
  then have "\<bar>n\<bar> \<le> 2 ^ 53" by (simp only: of_int_le_iff)
  from rd_exact[OF this, of "- int k"] show ?thesis by (simp add: x)
qed

lemma js_add_exact:
  "on_grid k x \<Longrightarrow> on_grid k y \<Longrightarrow> \<bar>x + y\<bar> * 2 ^ k \<le> 2 ^ 53 \<Longrightarrow> js_add x y = x + y"
  unfolding js_add_def by (intro rd_grid on_grid_add)

lemma js_sub_exact:
  "on_grid k x \<Longrightarrow> on_grid k y \<Longrightarrow> \<bar>x - y\<bar> * 2 ^ k \<le> 2 ^ 53 \<Longrightarrow> js_sub x y = x - y"
  unfolding js_sub_def by (intro rd_grid on_grid_diff)

lemma js_sub_sign:
  "js_sub x y = 0 \<longleftrightarrow> x = y" "js_sub x y < 0 \<longleftrightarrow> x < y" "0 < js_sub x y \<longleftrightarrow> y < x"
  "js_sub x y \<le> 0 \<longleftrightarrow> x \<le> y"
  by (simp_all add: js_sub_def)

section \<open>Evaluation on concrete inputs\<close>

declare np_loop.simps [code]
declare srtf_loop.simps [code]
declare rr_loop.simps [code]

lemma rd_Ints: "x \<in> \<int> \<Longrightarrow> \<bar>x\<bar> \<le> 2 ^ 53 \<Longrightarrow> rd x = x"
  using rd_grid[of 0 x] by (simp add: on_grid_def)

lemma rd_halves: "x * 2 \<in> \<int> \<Longrightarrow> \<bar>x\<bar> * 2 \<le> 2 ^ 53 \<Longrightarrow> rd x = x"
  using rd_grid[of 1 x] by (simp add: on_grid_def)

lemmas js_eval = js_add_def js_sub_def rd_Ints

lemmas rr_eval =
  roundRobin_def rr_loop.simps rr_init_def rr_dispatch_def rr_idle_def rr_admit_def
  admit_def admit_one_def rr_slice_def first_result_def finalize_def idle_block_def
  Let_def upt_conv_Cons js_eval

lemmas srtf_eval =
  srtf_def srtf_loop.simps srtf_init_def srtf_pick_def srtf_consider_def srtf_better_def
  srtf_run_def srtf_idle_def srtf_switch_def srtf_finish_def first_result_def finalize_def
  js_or_def Let_def upt_conv_Cons js_eval

section \<open>Blocks that tile an interval\<close>

lemma chain_append: "chain a xs m \<Longrightarrow> chain m ys e \<Longrightarrow> chain a (xs @ ys) e"
  by (induction xs arbitrary: a) auto




lemma service_snoc:
  "service name (bs @ [b]) =
     service name bs + (if b_pid b = name \<and> name \<noteq> ''IDLE'' then b_end b - b_start b else 0)"
  by (auto simp: service_def)

lemma occurrences_snoc:
  "occurrences name (bs @ [b]) =
     occurrences name bs + (if b_pid b = name \<and> name \<noteq> ''IDLE'' then 1 else 0)"
  by (auto simp: occurrences_def)

lemma service_Nil [simp]: "service name [] = 0"
  by (simp add: service_def)

lemma occurrences_Nil [simp]: "occurrences name [] = 0"
  by (simp add: occurrences_def)

lemma service_idle [simp]: "service name (bs @ [idle_block s e]) = service name bs"
  by (simp add: service_def idle_block_def)

lemma occurrences_idle [simp]: "occurrences name (bs @ [idle_block s e]) = occurrences name bs"
  by (simp add: occurrences_def idle_block_def)

lemma Math_min_Num: "ps \<noteq> [] \<Longrightarrow> \<exists>a. Math_min (map f ps) = Num a"
  by (cases ps) auto


section \<open>Auxiliary facts: minimum, sorting, admission\<close>

lemma Math_min_attained:
  assumes "Math_min xs = Num m" shows "m \<in> set xs \<and> (\<forall>x\<in>set xs. m \<le> x)"
proof (cases xs)
  case Nil
  with assms show ?thesis by simp
next
  case (Cons x ys)
  with assms have "m = Min (set xs)" using Min.set_eq_fold[of x ys] by simp
  moreover have "finite (set xs)" "set xs \<noteq> {}" using Cons by auto
  ultimately show ?thesis by (auto intro: Min_in Min_le)
qed

lemma Math_min_empty: "Math_min xs = PosInf \<longleftrightarrow> xs = []"
  by (cases xs) auto

lemma Math_min_cases: "Math_min xs = PosInf \<or> (\<exists>m. Math_min xs = Num m)"
  by (cases xs) auto

lemma mset_insert_by: "mset (insert_by c x xs) = add_mset x (mset xs)"
  by (induction xs) auto

lemma mset_sort_by: "mset (sort_by c xs) = mset xs"
  by (induction xs) (auto simp: sort_by_def mset_insert_by)

lemma set_sort_by: "set (sort_by c xs) = set xs"
  using mset_eq_setD[OF mset_sort_by] .

lemma length_sort_by: "length (sort_by c xs) = length xs"
  using mset_eq_length[OF mset_sort_by] .

lemma distinct_sort_by: "distinct (sort_by c xs) = distinct xs"
  using mset_eq_imp_distinct_iff[OF mset_sort_by] .

lemma admit_fold:
  "distinct xs \<Longrightarrow>
   fold (admit_one ps t) xs (q, a) =
     (q @ filter (\<lambda>i. i \<notin> a \<and> arrival (ps ! i) \<le> t) xs,
      a \<union> {i \<in> set xs. arrival (ps ! i) \<le> t})"
proof (induction xs arbitrary: q a)
  case Nil
  then show ?case by simp
next
  case (Cons x xs)
  then have IH: "\<And>q a. fold (admit_one ps t) xs (q, a) =
     (q @ filter (\<lambda>i. i \<notin> a \<and> arrival (ps ! i) \<le> t) xs,
      a \<union> {i \<in> set xs. arrival (ps ! i) \<le> t})" by simp
  show ?case
  proof (cases "x \<notin> a \<and> arrival (ps ! x) \<le> t")
    case True
    have "filter (\<lambda>i. i \<notin> insert x a \<and> arrival (ps ! i) \<le> t) xs =
          filter (\<lambda>i. i \<notin> a \<and> arrival (ps ! i) \<le> t) xs"
      using Cons.prems by (intro filter_cong) auto
    moreover have "admit_one ps t x (q, a) = (q @ [x], insert x a)"
      using True by (simp add: admit_one_def)
    moreover have "insert x a \<union> {i \<in> set xs. arrival (ps ! i) \<le> t} =
        a \<union> {i \<in> set (x # xs). arrival (ps ! i) \<le> t}"
      using True by auto
    ultimately show ?thesis using True by (simp add: IH)
  next
    case False
    then have "admit_one ps t x (q, a) = (q, a)" by (auto simp: admit_one_def)
    moreover have "a \<union> {i \<in> set (x # xs). arrival (ps ! i) \<le> t} = a \<union> {i \<in> set xs. arrival (ps ! i) \<le> t}"
      using False by auto
    ultimately show ?thesis using False by (simp add: IH)
  qed
qed

lemma admit_eq:
  "admit ps t (q, a) =
     (q @ filter (\<lambda>i. i \<notin> a \<and> arrival (ps ! i) \<le> t) [0..<length ps],
      a \<union> {i. i < length ps \<and> arrival (ps ! i) \<le> t})"
  unfolding admit_def by (subst admit_fold) auto


section \<open>Where the arithmetic is exact\<close>


lemma arrival_le_Max: "p \<in> set ps \<Longrightarrow> arrival p \<le> Max (arrival ` set ps)"
  by (intro Max_ge) auto

lemma arrival_le_horizon:
  "\<forall>p\<in>set ps. 0 < burst p \<Longrightarrow> p \<in> set ps \<Longrightarrow> arrival p + sum_list (map burst ps) \<le> horizon ps"
  unfolding horizon_def using arrival_le_Max[of p ps] by simp


lemma exact_add:
  assumes "fits k ps" and "on_grid k x" and "on_grid k y" and "0 \<le> x + y" and "x + y \<le> horizon ps"
  shows "js_add x y = x + y"
proof (rule js_add_exact[OF assms(2,3)])
  have "\<bar>x + y\<bar> * 2 ^ k = (x + y) * 2 ^ k" using assms(4) by simp
  also have "\<dots> \<le> horizon ps * 2 ^ k" using assms(5) by (intro mult_right_mono) simp_all
  also have "\<dots> \<le> 2 ^ 53" using assms(1) by (simp add: fits_def)
  finally show "\<bar>x + y\<bar> * 2 ^ k \<le> 2 ^ 53" .
qed

lemma exact_sub:
  assumes "fits k ps" and "on_grid k x" and "on_grid k y" and "\<bar>x - y\<bar> \<le> horizon ps"
  shows "js_sub x y = x - y"
proof (rule js_sub_exact[OF assms(2,3)])
  have "\<bar>x - y\<bar> * 2 ^ k \<le> horizon ps * 2 ^ k" using assms(4) by (intro mult_right_mono) simp_all
  also have "\<dots> \<le> 2 ^ 53" using assms(1) by (simp add: fits_def)
  finally show "\<bar>x - y\<bar> * 2 ^ k \<le> 2 ^ 53" .
qed


section \<open>FCFS: the loop\<close>





lemma fcfs_loop_dom:
  "dom (results (fcfs_loop ps time bs res)) = dom res \<union> pid ` set ps"
  by (induction ps arbitrary: time bs res) (auto simp: Let_def)



lemma fcfs_dom: "dom (results (fcfs ps)) = pid ` set ps"
proof (cases ps)
  case Nil
  then show ?thesis by (simp add: fcfs_def empty_result_def)
next
  case (Cons p qs)
  then have "ps \<noteq> []" by simp
  from Math_min_Num[OF this] obtain a where "Math_min (map arrival ps) = Num a" by blast
  then show ?thesis by (simp add: fcfs_def fcfs_loop_dom)
qed

section \<open>SJF and Priority: the steps of the loop keep the invariants\<close>

lemma np_admit_simps:
  "np_ready (np_admit ps s) =
     np_ready s @ filter (\<lambda>i. i \<notin> np_used s \<and> arrival (ps ! i) \<le> np_time s) [0..<length ps]"
  "np_used (np_admit ps s) = np_used s \<union> {i. i < length ps \<and> arrival (ps ! i) \<le> np_time s}"
  "np_time (np_admit ps s) = np_time s"
  "np_completed (np_admit ps s) = np_completed s"
  "np_blocks (np_admit ps s) = np_blocks s"
  "np_res (np_admit ps s) = np_res s"
  by (simp_all add: np_admit_def admit_eq Let_def)

lemma np_admit_ran: "np_ran (np_admit ps s) = np_ran s"
  by (auto simp: np_ran_def np_admit_simps)

lemma np_admit_struct: assumes "np_struct ps s" shows "np_struct ps (np_admit ps s)"
proof -
  let ?new = "filter (\<lambda>i. i \<notin> np_used s \<and> arrival (ps ! i) \<le> np_time s) [0..<length ps]"
  from assms have U: "np_used s \<subseteq> {0..<length ps}" and R: "set (np_ready s) \<subseteq> np_used s"
    and D: "distinct (np_ready s)"
    and C: "np_completed s + length (np_ready s) = card (np_used s)"
    by (auto simp: np_struct_def)
  have fin: "finite (np_used s)" using U finite_subset by blast
  have un: "np_used (np_admit ps s) = np_used s \<union> set ?new" by (auto simp: np_admit_simps)
  have disj: "np_used s \<inter> set ?new = {}" by auto
  have "card (np_used s \<union> set ?new) = card (np_used s) + card (set ?new)"
    using fin disj by (simp add: card_Un_disjoint)
  also have "card (set ?new) = length ?new" by (rule distinct_card) simp
  finally have card: "card (np_used s \<union> set ?new) = card (np_used s) + length ?new" .
  show ?thesis unfolding np_struct_def
  proof (intro conjI)
    show "np_used (np_admit ps s) \<subseteq> {0..<length ps}" using U by (auto simp: np_admit_simps)
    show "set (np_ready (np_admit ps s)) \<subseteq> np_used (np_admit ps s)"
      using R by (auto simp: np_admit_simps)
    show "distinct (np_ready (np_admit ps s))" using D R by (auto simp: np_admit_simps)
    show "np_completed (np_admit ps s) + length (np_ready (np_admit ps s)) = card (np_used (np_admit ps s))"
      using C card unfolding un by (simp add: np_admit_simps)
  qed
qed
lemma np_idle_struct: "np_struct ps (np_idle next s) = np_struct ps s"
  by (simp add: np_struct_def np_idle_def)


lemma np_next:
  assumes "Math_min (map (\<lambda>i. arrival (ps ! i))
             (filter (\<lambda>i. i \<notin> np_used (np_admit ps s)) [0..<length ps])) = Num next"
  shows "np_time s < next"
    and "np_ready (np_admit ps (np_idle next (np_admit ps s))) \<noteq> []"
proof -
  from Math_min_attained[OF assms] obtain j where
    j: "j < length ps" "j \<notin> np_used (np_admit ps s)" "arrival (ps ! j) = next"
    by auto
  from j show "np_time s < next" by (auto simp: np_admit_simps)
  define s2 where "s2 = np_idle next (np_admit ps s)"
  have "np_used s2 = np_used (np_admit ps s)" "np_time s2 = next"
    by (simp_all add: s2_def np_idle_def)
  then have "j \<in> set (np_ready (np_admit ps s2))"
    using j by (simp add: np_admit_simps(1)[of ps s2])
  then have "j \<in> set (np_ready (np_admit ps (np_idle next (np_admit ps s))))"
    by (simp add: s2_def)
  then show "np_ready (np_admit ps (np_idle next (np_admit ps s))) \<noteq> []" by auto
qed


lemma np_run_obtain:
  assumes "np_ready s \<noteq> []" "distinct (np_ready s)"
  obtains idx rest where
    "idx \<in> set (np_ready s)" "set rest = set (np_ready s) - {idx}" "distinct rest"
    "Suc (length rest) = length (np_ready s)"
    "np_run cmp ps s =
       s\<lparr>np_ready := rest,
         np_blocks := np_blocks s @
            [\<lparr>b_pid = pid (ps ! idx), b_start = np_time s,
              b_end = js_add (np_time s) (burst (ps ! idx))\<rparr>],
         np_res := (np_res s)(pid (ps ! idx) \<mapsto>
            full_result (ps ! idx) (np_time s) (js_add (np_time s) (burst (ps ! idx)))),
         np_time := js_add (np_time s) (burst (ps ! idx)),
         np_completed := np_completed s + 1\<rparr>"
proof -
  let ?sorted = "sort_by (\<lambda>ia ib. cmp (ps ! ia) (ps ! ib)) (np_ready s)"
  have "length ?sorted = length (np_ready s)" by (rule length_sort_by)
  with assms(1) obtain idx rest where sr: "?sorted = idx # rest" by (cases ?sorted) auto
  have st: "set ?sorted = set (np_ready s)" by (rule set_sort_by)
  have ds: "distinct ?sorted" using assms(2) by (simp add: distinct_sort_by)
  show thesis
  proof (rule that[of idx rest])
    show "idx \<in> set (np_ready s)" using st sr by auto
    show "set rest = set (np_ready s) - {idx}" using st sr ds by auto
    show "distinct rest" using ds sr by simp
    show "Suc (length rest) = length (np_ready s)"
      using length_sort_by[of "\<lambda>ia ib. cmp (ps ! ia) (ps ! ib)" "np_ready s"] sr by simp
    show "np_run cmp ps s =
       s\<lparr>np_ready := rest,
         np_blocks := np_blocks s @
            [\<lparr>b_pid = pid (ps ! idx), b_start = np_time s,
              b_end = js_add (np_time s) (burst (ps ! idx))\<rparr>],
         np_res := (np_res s)(pid (ps ! idx) \<mapsto>
            full_result (ps ! idx) (np_time s) (js_add (np_time s) (burst (ps ! idx)))),
         np_time := js_add (np_time s) (burst (ps ! idx)),
         np_completed := np_completed s + 1\<rparr>"
      by (simp add: np_run_def Let_def sr)
  qed
qed


lemma card_insert_filter:
  "finite A \<Longrightarrow> x \<notin> A \<Longrightarrow>
   card {i. i \<in> insert x A \<and> P i} = card {i. i \<in> A \<and> P i} + (if P x then 1 else 0)"
proof -
  assume fin: "finite A" and x: "x \<notin> A"
  show ?thesis
  proof (cases "P x")
    case True
    then have "{i. i \<in> insert x A \<and> P i} = insert x {i. i \<in> A \<and> P i}" by auto
    then show ?thesis using fin x True by simp
  next
    case False
    then have "{i. i \<in> insert x A \<and> P i} = {i. i \<in> A \<and> P i}" by auto
    then show ?thesis using False by simp
  qed
qed


lemma same_pid_index:
  assumes "distinct (map pid ps)" "j < length ps"
  shows "{i. i \<in> {0..<length ps} \<and> pid (ps ! i) = pid (ps ! j)} = {j}"
proof -
  have "(pid (ps ! i) = pid (ps ! j)) = (i = j)" if "i < length ps" for i
    using nth_eq_iff_index_eq[OF assms(1), of i j] that assms(2) by simp
  then show ?thesis using assms(2) by auto
qed

lemma pid_image_indices: "(\<lambda>i. pid (ps ! i)) ` {0..<length ps} = pid ` set ps"
proof -
  have "(!) ps ` {0..<length ps} = set ps" by (simp add: nth_image)
  then have "pid ` ((!) ps ` {0..<length ps}) = pid ` set ps" by simp
  then show ?thesis by (simp add: image_image)
qed


lemma np_admit_occ: "np_occ ps (np_admit ps s) = np_occ ps s"
  by (simp add: np_occ_def np_admit_ran np_admit_simps)


lemma np_idle_occ: "np_occ ps s \<Longrightarrow> np_occ ps (np_idle next s)"
  by (simp add: np_occ_def np_ran_def np_idle_def)



lemma np_run_struct:
  assumes st: "np_struct ps s" and ne: "np_ready s \<noteq> []"
  shows "np_struct ps (np_run cmp ps s)" and "np_completed (np_run cmp ps s) = np_completed s + 1"
proof -
  from st have U: "np_used s \<subseteq> {0..<length ps}" and R: "set (np_ready s) \<subseteq> np_used s"
    and D: "distinct (np_ready s)"
    and C: "np_completed s + length (np_ready s) = card (np_used s)"
    by (auto simp: np_struct_def)
  from np_run_obtain[OF ne D, of cmp ps] obtain idx rest where
    idx: "idx \<in> set (np_ready s)" and rest: "set rest = set (np_ready s) - {idx}"
    and dr: "distinct rest" and len: "Suc (length rest) = length (np_ready s)"
    and run: "np_run cmp ps s =
       s\<lparr>np_ready := rest,
         np_blocks := np_blocks s @
            [\<lparr>b_pid = pid (ps ! idx), b_start = np_time s,
              b_end = js_add (np_time s) (burst (ps ! idx))\<rparr>],
         np_res := (np_res s)(pid (ps ! idx) \<mapsto>
            full_result (ps ! idx) (np_time s) (js_add (np_time s) (burst (ps ! idx)))),
         np_time := js_add (np_time s) (burst (ps ! idx)),
         np_completed := np_completed s + 1\<rparr>"
    by metis
  show "np_completed (np_run cmp ps s) = np_completed s + 1" by (simp add: run)
  show "np_struct ps (np_run cmp ps s)"
    using U R D C rest dr len by (auto simp: np_struct_def run)
qed

lemma np_run_occ:
  assumes st: "np_struct ps s" and oc: "np_occ ps s" and ne: "np_ready s \<noteq> []"
  shows "np_occ ps (np_run cmp ps s)"
proof -
  from st have U: "np_used s \<subseteq> {0..<length ps}" and R: "set (np_ready s) \<subseteq> np_used s"
    and D: "distinct (np_ready s)"
    by (auto simp: np_struct_def)
  from np_run_obtain[OF ne D, of cmp ps] obtain idx rest where
    idx: "idx \<in> set (np_ready s)" and rest: "set rest = set (np_ready s) - {idx}"
    and run: "np_run cmp ps s =
       s\<lparr>np_ready := rest,
         np_blocks := np_blocks s @
            [\<lparr>b_pid = pid (ps ! idx), b_start = np_time s,
              b_end = js_add (np_time s) (burst (ps ! idx))\<rparr>],
         np_res := (np_res s)(pid (ps ! idx) \<mapsto>
            full_result (ps ! idx) (np_time s) (js_add (np_time s) (burst (ps ! idx)))),
         np_time := js_add (np_time s) (burst (ps ! idx)),
         np_completed := np_completed s + 1\<rparr>"
    by metis
  have fin: "finite (np_ran s)" using U finite_subset by (fastforce simp: np_ran_def)
  have nin: "idx \<notin> np_ran s" using idx by (simp add: np_ran_def)
  have ran: "np_ran (np_run cmp ps s) = insert idx (np_ran s)"
    using idx R rest by (auto simp: np_ran_def run)
  show ?thesis
    unfolding np_occ_def ran
  proof (intro conjI allI impI)
    fix name :: string assume n: "name \<noteq> ''IDLE''"
    from oc n have a2: "occurrences name (np_blocks s) = card {i \<in> np_ran s. pid (ps ! i) = name}"
      by (auto simp: np_occ_def)
    show "occurrences name (np_blocks (np_run cmp ps s)) =
        card {i \<in> insert idx (np_ran s). pid (ps ! i) = name}"
      using n a2 by (simp add: run occurrences_snoc card_insert_filter[OF fin nin] del: insert_iff)
  next
    from oc have "dom (np_res s) = (\<lambda>i. pid (ps ! i)) ` np_ran s" by (simp add: np_occ_def)
    then show "dom (np_res (np_run cmp ps s)) = (\<lambda>i. pid (ps ! i)) ` insert idx (np_ran s)"
      by (simp add: run)
  next
    assume "np_blocks (np_run cmp ps s) = []"
    then show "np_completed (np_run cmp ps s) = 0" by (simp add: run)
  qed
qed



text \<open>
  The loop ends on every list; a property that its three steps keep holds of the state
  it ends in.
\<close>

lemma np_loop_total:
  assumes adm: "\<And>s. np_struct ps s \<Longrightarrow> P s \<Longrightarrow> P (np_admit ps s)"
    and idl: "\<And>s nxt j. np_struct ps s \<Longrightarrow> P s \<Longrightarrow> np_ready s = [] \<Longrightarrow> j < length ps \<Longrightarrow>
                arrival (ps ! j) = nxt \<Longrightarrow> np_time s < nxt \<Longrightarrow> P (np_idle nxt s)"
    and run: "\<And>s. np_struct ps s \<Longrightarrow> P s \<Longrightarrow> np_ready s \<noteq> [] \<Longrightarrow> P (np_run cmp ps s)"
  shows "np_struct ps s \<Longrightarrow> P s \<Longrightarrow>
     \<exists>t. np_loop cmp ps s = Some t \<and> np_struct ps t \<and> P t \<and> length ps \<le> np_completed t"
proof (induction "np_measure ps s" arbitrary: s rule: less_induct)
  case less
  note st = less.prems(1) and P = less.prems(2)
  show ?case
  proof (cases "np_completed s < length ps")
    case False
    then show ?thesis using less.prems by (subst np_loop.simps) simp
  next
    case True
    let ?s1 = "np_admit ps s"
    have st1: "np_struct ps ?s1" by (rule np_admit_struct[OF st])
    have P1: "P ?s1" by (rule adm[OF st P])
    show ?thesis
    proof (cases "np_ready ?s1 = []")
      case False
      let ?s2 = "np_run cmp ps ?s1"
      from np_run_struct[OF st1 False, of cmp] have st2: "np_struct ps ?s2"
        and c2: "np_completed ?s2 = np_completed s + 1" by (simp_all add: np_admit_simps)
      have P2: "P ?s2" by (rule run[OF st1 P1 False])
      have "np_measure ps ?s2 \<le> 2 * (length ps - np_completed ?s2) + 1"
        and "2 * (length ps - np_completed s) \<le> np_measure ps s"
        by (simp_all add: np_measure_def)
      then have "np_measure ps ?s2 < np_measure ps s"
        using True c2 by arith
      from less.hyps[OF this st2 P2] obtain t where
        "np_loop cmp ps ?s2 = Some t" "np_struct ps t" "P t" "length ps \<le> np_completed t" by blast
      then show ?thesis using True False by (subst np_loop.simps) (simp add: Let_def)
    next
      case empty: True
      let ?un = "filter (\<lambda>i. i \<notin> np_used ?s1) [0..<length ps]"
      have "?un \<noteq> []"
      proof
        assume "?un = []"
        then have "{0..<length ps} \<subseteq> np_used ?s1" by (auto simp: filter_empty_conv)
        with st1 have "np_used ?s1 = {0..<length ps}" by (auto simp: np_struct_def)
        with st1 empty have "np_completed ?s1 = length ps" by (simp add: np_struct_def)
        with True show False by (simp add: np_admit_simps)
      qed
      then obtain nxt where nx: "Math_min (map (\<lambda>i. arrival (ps ! i)) ?un) = Num nxt"
        using Math_min_Num by blast
      from Math_min_attained[OF nx] obtain j where
        j: "j < length ps" "arrival (ps ! j) = nxt" by auto
      let ?s2 = "np_idle nxt ?s1"
      from np_next[OF nx] have later: "np_time s < nxt"
        and ready2: "np_ready (np_admit ps ?s2) \<noteq> []" by simp_all
      have later1: "np_time ?s1 < nxt" using later by (simp add: np_admit_simps)
      have st2: "np_struct ps ?s2" using st1 by (simp add: np_idle_struct)
      have P2: "P ?s2" by (rule idl[OF st1 P1 empty j later1])
      have "np_measure ps ?s2 < np_measure ps s"
        using empty ready2 by (simp add: np_measure_def np_idle_def np_admit_simps)
      from less.hyps[OF this st2 P2] obtain t where
        "np_loop cmp ps ?s2 = Some t" "np_struct ps t" "P t" "length ps \<le> np_completed t" by blast
      then show ?thesis using True empty nx by (subst np_loop.simps) (simp add: Let_def)
    qed
  qed
qed

lemma np_final:
  assumes st: "np_struct ps t" and fin: "length ps \<le> np_completed t"
  shows "np_ran t = {0..<length ps}"
proof -
  from st have U: "np_used t \<subseteq> {0..<length ps}"
    and C: "np_completed t + length (np_ready t) = card (np_used t)"
    by (auto simp: np_struct_def)
  have "card (np_used t) \<le> length ps" using U card_mono[of "{0..<length ps}" "np_used t"] by simp
  with C fin have cu: "card (np_used t) = length ps" and "length (np_ready t) = 0" by arith+
  then have re: "np_ready t = []" by simp
  have used: "np_used t = {0..<length ps}" using U cu by (simp add: card_subset_eq)
  show ?thesis by (simp add: np_ran_def used re)
qed

text \<open>On every list, SJF and Priority return, with one results entry per pid.\<close>

lemma np_schedule_sound:
  "\<exists>r. np_schedule cmp ps = Some r \<and> dom (results r) = pid ` set ps
       \<and> (valid ps \<longrightarrow> ''IDLE'' \<notin> pid ` set ps \<longrightarrow> single_block ps r)"
proof (cases ps)
  case Nil
  then show ?thesis by (simp add: np_schedule_def empty_result_def valid_def)
next
  case (Cons p0 qs)
  then have ne: "ps \<noteq> []" by simp
  from Math_min_Num[OF ne] obtain a where a: "Math_min (map arrival ps) = Num a" by blast
  let ?s0 = "\<lparr>np_time = a, np_ready = [], np_used = {}, np_completed = 0,
                np_blocks = [], np_res = Map.empty\<rparr>"
  have st0: "np_struct ps ?s0" by (simp add: np_struct_def)
  have oc0: "np_occ ps ?s0" by (simp add: np_occ_def np_ran_def)
  have "\<exists>t. np_loop cmp ps ?s0 = Some t \<and> np_struct ps t \<and> np_occ ps t \<and> length ps \<le> np_completed t"
  proof (rule np_loop_total[where P = "np_occ ps", OF _ _ _ st0 oc0])
    show "np_occ ps (np_admit ps s)" if "np_occ ps s" for s
      using that by (simp add: np_admit_occ)
    show "np_occ ps (np_idle nxt s)" if "np_occ ps s" for s nxt
      using that by (rule np_idle_occ)
    show "np_occ ps (np_run cmp ps s)" if "np_struct ps s" "np_occ ps s" "np_ready s \<noteq> []" for s
      using that by (rule np_run_occ)
  qed
  then obtain t where t: "np_loop cmp ps ?s0 = Some t" and st: "np_struct ps t"
    and oc: "np_occ ps t" and fin: "length ps \<le> np_completed t" by blast
  let ?r = "\<lparr>blocks = np_blocks t, results = np_res t, endTime = Num (np_time t)\<rparr>"
  have r: "np_schedule cmp ps = Some ?r" by (simp add: np_schedule_def a t)
  have ran: "np_ran t = {0..<length ps}" by (rule np_final[OF st fin])
  have dm: "dom (results ?r) = pid ` set ps"
    using oc ran pid_image_indices[of ps] by (simp add: np_occ_def)
  have sb: "single_block ps ?r" if v: "valid ps" and idle: "''IDLE'' \<notin> pid ` set ps"
    unfolding single_block_def
  proof
    fix p assume p: "p \<in> set ps"
    from v have d: "distinct (map pid ps)" by (simp add: valid_def)
    from p obtain j where j: "j < length ps" "ps ! j = p" by (auto simp: in_set_conv_nth)
    from p idle have n: "pid p \<noteq> ''IDLE''" by force
    from oc n have "occurrences (pid p) (np_blocks t) = card {i \<in> np_ran t. pid (ps ! i) = pid p}"
      by (auto simp: np_occ_def)
    then show "occurrences (pid p) (blocks ?r) = 1"
      using same_pid_index[OF d j(1)] j(2) by (simp add: ran)
  qed
  show ?thesis using r dm sb by blast
qed


section \<open>Round-Robin: the steps of the loop keep the invariants\<close>

lemma rr_admit_simps:
  "rr_queue (rr_admit ps s) =
     rr_queue s @ filter (\<lambda>i. i \<notin> rr_arrived s \<and> arrival (ps ! i) \<le> rr_time s) [0..<length ps]"
  "rr_arrived (rr_admit ps s) = rr_arrived s \<union> {i. i < length ps \<and> arrival (ps ! i) \<le> rr_time s}"
  "rr_time (rr_admit ps s) = rr_time s"
  "rr_rem (rr_admit ps s) = rr_rem s"
  "rr_firstStart (rr_admit ps s) = rr_firstStart s"
  "rr_blocks (rr_admit ps s) = rr_blocks s"
  "rr_res (rr_admit ps s) = rr_res s"
  by (simp_all add: rr_admit_def admit_eq Let_def)


lemma rr_dispatch_eq:
  fixes qu :: "real option" and s :: rr_state and ps :: "process list"
  assumes q: "rr_queue s = i # rest"
    and fs: "rr_firstStart s ! i \<noteq> None \<longrightarrow> rr_res s (pid (ps ! i)) \<noteq> None"
    and len: "i < length (rr_rem s)"
  defines "run \<equiv> rr_slice qu (rr_rem s ! i)"
  defines "res2 \<equiv> (if rr_firstStart s ! i = None
                    then (rr_res s)(pid (ps ! i) \<mapsto> first_result (ps ! i) (rr_time s))
                    else rr_res s)"
  shows "\<exists>s'. rr_dispatch ps qu s = Inr s'
     \<and> rr_time s' = js_add (rr_time s) run
     \<and> rr_rem s' = (rr_rem s)[i := js_sub (rr_rem s ! i) run]
     \<and> rr_firstStart s' =
         (if rr_firstStart s ! i = None then (rr_firstStart s)[i := Some (rr_time s)]
          else rr_firstStart s)
     \<and> rr_queue s' =
         rest @ filter (\<lambda>k. k \<notin> rr_arrived s \<and> arrival (ps ! k) \<le> js_add (rr_time s) run)
                  [0..<length ps]
           @ (if 0 < js_sub (rr_rem s ! i) run then [i] else [])
     \<and> rr_arrived s' =
         rr_arrived s \<union> {k. k < length ps \<and> arrival (ps ! k) \<le> js_add (rr_time s) run}
     \<and> rr_blocks s' =
         rr_blocks s @
           [\<lparr>b_pid = pid (ps ! i), b_start = rr_time s, b_end = js_add (rr_time s) run\<rparr>]
     \<and> (\<exists>r. res2 (pid (ps ! i)) = Some r
          \<and> rr_res s' =
              (if 0 < js_sub (rr_rem s ! i) run then res2
               else res2(pid (ps ! i) \<mapsto> finalize (ps ! i) (js_add (rr_time s) run) r)))"
proof -
  have "\<exists>r. res2 (pid (ps ! i)) = Some r"
    using fs by (cases "rr_firstStart s ! i = None") (auto simp: res2_def)
  then obtain r where r: "res2 (pid (ps ! i)) = Some r" by blast
  show ?thesis
    using q len r
    by (auto simp: rr_dispatch_def Let_def rr_admit_simps run_def res2_def)
qed


lemma sum_list_update_less:
  fixes f :: "'a \<Rightarrow> nat"
  shows "i < length xs \<Longrightarrow> f v < f (xs ! i) \<Longrightarrow> sum_list (map f (xs[i := v])) < sum_list (map f xs)"
proof (induction xs arbitrary: i)
  case Nil
  then show ?case by simp
next
  case (Cons x xs)
  then show ?case by (cases i) auto
qed


lemma dispatches_left_decr:
  assumes "good_quantum k q" "0 < r"
  shows "dispatches_left q (r - rr_slice q r) < dispatches_left q r"
proof (cases q)
  case None
  then show ?thesis using assms by (simp add: dispatches_left_def rr_slice_def)
next
  case (Some x)
  with assms have x: "0 < x" by (simp add: good_quantum_def)
  have pos: "0 < \<lceil>r / x\<rceil>" using x assms(2) by simp
  show ?thesis
  proof (cases "r \<le> x")
    case True
    then have "rr_slice q r = r" by (simp add: rr_slice_def Some)
    then show ?thesis using pos by (simp add: dispatches_left_def Some)
  next
    case False
    then have sl: "rr_slice (Some x) r = x" by (simp add: rr_slice_def)
    have "(r - x) / x = r / x - 1" using x by (simp add: field_simps)
    then have "\<lceil>(r - x) / x\<rceil> = \<lceil>r / x\<rceil> - 1" by simp
    then show ?thesis using pos unfolding Some dispatches_left_def sl by simp
  qed
qed

lemma rr_slice_bounds:
  "good_quantum k q \<Longrightarrow> 0 < r \<Longrightarrow> 0 < rr_slice q r \<and> rr_slice q r \<le> r"
  by (auto simp: good_quantum_def rr_slice_def split: option.splits)


lemma rr_slice_grid: "good_quantum k q \<Longrightarrow> on_grid k r \<Longrightarrow> on_grid k (rr_slice q r)"
  by (auto simp: good_quantum_def rr_slice_def on_grid_min split: option.splits)

lemma nth_le_sum_list:
  fixes xs :: "real list"
  shows "\<forall>x\<in>set xs. 0 \<le> x \<Longrightarrow> i < length xs \<Longrightarrow> xs ! i \<le> sum_list xs"
proof (induction xs arbitrary: i)
  case Nil
  then show ?case by simp
next
  case (Cons x xs)
  have s0: "0 \<le> sum_list xs" using Cons.prems(1) by (intro sum_list_nonneg) simp
  show ?case
  proof (cases i)
    case 0
    then show ?thesis using s0 by simp
  next
    case (Suc j)
    with Cons.prems have "xs ! j \<le> sum_list xs" by (intro Cons.IH) simp_all
    then show ?thesis using Suc Cons.prems(1) by simp
  qed
qed

lemma sum_list_update_real:
  fixes xs :: "real list"
  shows "i < length xs \<Longrightarrow> sum_list (xs[i := x]) = sum_list xs + x - xs ! i"
proof (induction xs arbitrary: i)
  case Nil
  then show ?case by simp
next
  case (Cons y ys)
  then show ?case by (cases i) simp_all
qed

lemma sum_list_pointwise_le:
  fixes xs ys :: "real list"
  shows "length xs = length ys \<Longrightarrow> \<forall>i<length xs. xs ! i \<le> ys ! i \<Longrightarrow> sum_list xs \<le> sum_list ys"
proof (induction xs ys rule: list_induct2)
  case Nil
  then show ?case by simp
next
  case (Cons x xs y ys)
  from Cons.prems have "x \<le> y" by auto
  moreover have "\<forall>i<length xs. xs ! i \<le> ys ! i" using Cons.prems by auto
  ultimately show ?case using Cons.IH by simp
qed

lemma finalize_exact:
  assumes f: "fits k ps" and v: "valid ps" and p: "p \<in> set ps"
    and g: "on_grid k t" and lo: "arrival p + burst p \<le> t" and hi: "t \<le> horizon ps"
  shows "finalized p (finalize p t r)"
proof -
  from v p have a0: "0 \<le> arrival p" and b0: "0 < burst p" by (auto simp: valid_def)
  from f p have ga: "on_grid k (arrival p)" and gb: "on_grid k (burst p)" by (auto simp: fits_def)
  have 1: "js_sub t (arrival p) = t - arrival p"
    using f g ga by (rule exact_sub) (use a0 b0 lo hi in simp)
  have 2: "js_sub (t - arrival p) (burst p) = t - arrival p - burst p"
    using f on_grid_diff[OF g ga] gb by (rule exact_sub) (use a0 b0 lo hi in simp)
  show ?thesis using lo by (simp add: finalized_def finalize_def 1 2)
qed


lemma sum_update_at:
  fixes f :: "nat \<Rightarrow> real"
  assumes "i < n" "i < length xs"
  shows "(\<Sum>k | k < n \<and> P k. f k - (xs[i := v]) ! k) =
         (\<Sum>k | k < n \<and> P k. f k - xs ! k) + (if P i then xs ! i - v else 0)"
proof (cases "P i")
  case False
  have "(xs[i := v]) ! k = xs ! k" if "P k" for k
  proof -
    from False that have "k \<noteq> i" by auto
    then show ?thesis by simp
  qed
  then have "(\<Sum>k | k < n \<and> P k. f k - (xs[i := v]) ! k) = (\<Sum>k | k < n \<and> P k. f k - xs ! k)"
    by (intro sum.cong) auto
  with False show ?thesis by simp
next
  case True
  let ?S = "{k. k < n \<and> P k}"
  have fin: "finite ?S" by simp
  have mem: "i \<in> ?S" using True assms by simp
  have rest: "(\<Sum>k\<in>?S - {i}. f k - (xs[i := v]) ! k) = (\<Sum>k\<in>?S - {i}. f k - xs ! k)"
    by (intro sum.cong) auto
  have "(\<Sum>k\<in>?S. f k - (xs[i := v]) ! k) = (f i - v) + (\<Sum>k\<in>?S - {i}. f k - (xs[i := v]) ! k)"
    using sum.remove[OF fin mem, of "\<lambda>k. f k - (xs[i := v]) ! k"] assms(2) by simp
  moreover have "(\<Sum>k\<in>?S. f k - xs ! k) = (f i - xs ! i) + (\<Sum>k\<in>?S - {i}. f k - xs ! k)"
    using sum.remove[OF fin mem, of "\<lambda>k. f k - xs ! k"] by simp
  ultimately show ?thesis using rest True by simp
qed


lemma rr_dispatch_inv:
  fixes qu :: "real option"
  assumes v: "valid ps" and f: "fits k ps"
    and gq: "good_quantum k qu" and inv: "rr_inv k ps a s" and ne: "rr_queue s \<noteq> []"
  shows "\<exists>s'. rr_dispatch ps qu s = Inr s' \<and> rr_inv k ps a s' \<and> rr_measure ps qu s' < rr_measure ps qu s
           \<and> rr_time s' = rr_time s + rr_slice qu (rr_rem s ! hd (rr_queue s))
           \<and> rr_rem s' = (rr_rem s)[hd (rr_queue s) :=
                 rr_rem s ! hd (rr_queue s) - rr_slice qu (rr_rem s ! hd (rr_queue s))]
           \<and> rr_blocks s' = rr_blocks s @
                 [\<lparr>b_pid = pid (ps ! hd (rr_queue s)), b_start = rr_time s,
                   b_end = rr_time s + rr_slice qu (rr_rem s ! hd (rr_queue s))\<rparr>]
           \<and> 0 < rr_slice qu (rr_rem s ! hd (rr_queue s))
           \<and> (\<exists>e. rr_res s' (pid (ps ! hd (rr_queue s))) = Some e
                  \<and> (rr_rem s' ! hd (rr_queue s) = 0 \<longrightarrow> finalized (ps ! hd (rr_queue s)) e))"
proof -
  let ?n = "length ps"
  from v have pos: "\<forall>p\<in>set ps. 0 < burst p" and d: "distinct (map pid ps)"
    and nn: "\<forall>p\<in>set ps. 0 \<le> arrival p" by (auto simp: valid_def)
  from ne obtain i rest where q: "rr_queue s = i # rest" by (cases "rr_queue s") auto
  from inv have S: "rr_struct ps s" and Ch: "rr_chain a s" and Sv: "rr_serv ps s"
    and Rs: "rr_results ps s" and Ex: "rr_exact k ps s" by (simp_all add: rr_inv_def)
  from Ex have gt: "on_grid k (rr_time s)" and t0: "0 \<le> rr_time s"
    and gr: "\<forall>i<?n. on_grid k (rr_rem s ! i) \<and> rr_rem s ! i \<le> burst (ps ! i)"
    and hb: "rr_time s + sum_list (rr_rem s) \<le> horizon ps" by (simp_all add: rr_exact_def)
  from S have lr: "length (rr_rem s) = ?n" and lf: "length (rr_firstStart s) = ?n"
    and arr: "rr_arrived s = {i. i < ?n \<and> arrival (ps ! i) \<le> rr_time s}"
    and dq: "distinct (rr_queue s)"
    and sq: "set (rr_queue s) = {i \<in> rr_arrived s. 0 < rr_rem s ! i}"
    and rem0: "\<forall>i<?n. 0 \<le> rr_rem s ! i \<and> (i \<notin> rr_arrived s \<longrightarrow> rr_rem s ! i = burst (ps ! i))"
    and tm: "\<forall>i\<in>rr_arrived s. arrival (ps ! i) + (burst (ps ! i) - rr_rem s ! i) \<le> rr_time s"
    by (simp_all add: rr_struct_def)
  have "i \<in> set (rr_queue s)" using q by simp
  then have ia: "i \<in> rr_arrived s" and ri: "0 < rr_rem s ! i" using sq by auto
  then have il: "i < ?n" using arr by auto
  define run where "run = rr_slice qu (rr_rem s ! i)"
  have run: "0 < run" "run \<le> rr_rem s ! i"
    using rr_slice_bounds[OF gq ri] by (simp_all add: run_def)
  define res2 where "res2 = (if rr_firstStart s ! i = None
                    then (rr_res s)(pid (ps ! i) \<mapsto> first_result (ps ! i) (rr_time s))
                    else rr_res s)"
  define new where "new = filter (\<lambda>k. k \<notin> rr_arrived s \<and> arrival (ps ! k) \<le> rr_time s + run) [0..<?n]"
  have fsr: "rr_firstStart s ! i \<noteq> None \<longrightarrow> rr_res s (pid (ps ! i)) \<noteq> None"
    using Rs il by (auto simp: rr_results_def)
  have il': "i < length (rr_rem s)" using il lr by simp
  have remnn: "\<forall>x\<in>set (rr_rem s). 0 \<le> x"
    using rem0 lr by (auto simp: in_set_conv_nth)
  have rile: "rr_rem s ! i \<le> sum_list (rr_rem s)" by (rule nth_le_sum_list[OF remnn il'])
  have grun: "on_grid k run" unfolding run_def using gq gr il by (intro rr_slice_grid) simp_all
  have E1: "js_add (rr_time s) run = rr_time s + run"
    using f gt grun by (rule exact_add) (use t0 run rile hb in simp_all)
  have E2: "js_sub (rr_rem s ! i) run = rr_rem s ! i - run"
    using f gr[rule_format, OF il, THEN conjunct1] grun
    by (rule exact_sub) (use t0 run rile hb in simp)
  from rr_dispatch_eq[OF q fsr il', of qu, folded run_def res2_def, unfolded E1 E2, folded new_def]
  obtain s' r where
    eq: "rr_dispatch ps qu s = Inr s'"
    and t': "rr_time s' = rr_time s + run"
    and rem': "rr_rem s' = (rr_rem s)[i := rr_rem s ! i - run]"
    and fs': "rr_firstStart s' =
         (if rr_firstStart s ! i = None then (rr_firstStart s)[i := Some (rr_time s)]
          else rr_firstStart s)"
    and q': "rr_queue s' = rest @ new @ (if 0 < rr_rem s ! i - run then [i] else [])"
    and a': "rr_arrived s' = rr_arrived s \<union> {k. k < ?n \<and> arrival (ps ! k) \<le> rr_time s + run}"
    and b': "rr_blocks s' =
         rr_blocks s @ [\<lparr>b_pid = pid (ps ! i), b_start = rr_time s, b_end = rr_time s + run\<rparr>]"
    and r2: "res2 (pid (ps ! i)) = Some r"
    and res': "rr_res s' =
              (if 0 < rr_rem s ! i - run then res2
               else res2(pid (ps ! i) \<mapsto> finalize (ps ! i) (rr_time s + run) r))"
    by blast
  have remk: "rr_rem s' ! k = (if k = i then rr_rem s ! i - run else rr_rem s ! k)" if "k < ?n" for k
    using that lr by (simp add: rem' nth_list_update)
  have arr': "rr_arrived s' = {k. k < ?n \<and> arrival (ps ! k) \<le> rr_time s'}"
    using run(1) by (auto simp: a' arr t')
  have newset: "set new = {k. k < ?n \<and> k \<notin> rr_arrived s \<and> arrival (ps ! k) \<le> rr_time s + run}"
    by (auto simp: new_def)
  have rest: "i \<notin> set rest" "distinct rest" "set rest = {k \<in> rr_arrived s. 0 < rr_rem s ! k} - {i}"
    using dq sq q by auto
  have dq': "distinct (rr_queue s')"
    using rest ia by (auto simp: q' newset new_def)
  have sq': "set (rr_queue s') = {k \<in> rr_arrived s'. 0 < rr_rem s' ! k}"
  proof (rule set_eqI)
    fix k
    show "k \<in> set (rr_queue s') \<longleftrightarrow> k \<in> {k \<in> rr_arrived s'. 0 < rr_rem s' ! k}"
    proof (cases "k < ?n")
      case False
      then have "k \<notin> set (rr_queue s')" using rest(3) arr il by (auto simp: q' newset)
      moreover have "k \<notin> rr_arrived s'" using False by (simp add: arr')
      ultimately show ?thesis by simp
    next
      case kn: True
      show ?thesis
      proof (cases "k = i")
        case True
        then show ?thesis using rest(1) ia il by (auto simp: q' newset a' remk)
      next
        case False
        have "rr_rem s' ! k = rr_rem s ! k" using False kn by (simp add: remk)
        moreover have "k \<notin> rr_arrived s \<Longrightarrow> 0 < rr_rem s ! k"
          using rem0 kn pos by simp
        ultimately show ?thesis using False kn rest(3) by (auto simp: q' newset a')
      qed
    qed
  qed
  have rem0': "\<forall>k<?n. 0 \<le> rr_rem s' ! k \<and> (k \<notin> rr_arrived s' \<longrightarrow> rr_rem s' ! k = burst (ps ! k))"
    using rem0 run(2) ia by (auto simp: remk a')
  have tm': "\<forall>k\<in>rr_arrived s'. arrival (ps ! k) + (burst (ps ! k) - rr_rem s' ! k) \<le> rr_time s'"
  proof
    fix k assume k: "k \<in> rr_arrived s'"
    then have kn: "k < ?n" by (simp add: arr')
    show "arrival (ps ! k) + (burst (ps ! k) - rr_rem s' ! k) \<le> rr_time s'"
    proof (cases "k \<in> rr_arrived s")
      case True
      with tm have "arrival (ps ! k) + (burst (ps ! k) - rr_rem s ! k) \<le> rr_time s" by simp
      then show ?thesis using run(1) kn by (auto simp: remk t')
    next
      case False
      with rem0 kn have "rr_rem s ! k = burst (ps ! k)" by simp
      moreover have "k \<noteq> i" using False ia by auto
      moreover have "arrival (ps ! k) \<le> rr_time s'" using k by (simp add: arr')
      ultimately show ?thesis using kn by (simp add: remk)
    qed
  qed
  have S': "rr_struct ps s'"
    unfolding rr_struct_def using lr lf arr' dq' sq' rem0' tm' by (simp add: rem' fs')
  have Ch': "rr_chain a s'"
    using Ch run(1) by (auto simp: rr_chain_def b' t' intro!: chain_append)
  have Sv': "rr_serv ps s'"
    unfolding rr_serv_def
  proof (intro allI impI)
    fix name :: string assume n: "name \<noteq> ''IDLE''"
    with Sv have "service name (rr_blocks s) =
        (\<Sum>k | k < ?n \<and> pid (ps ! k) = name. burst (ps ! k) - rr_rem s ! k)"
      by (simp add: rr_serv_def)
    then show "service name (rr_blocks s') =
        (\<Sum>k | k < ?n \<and> pid (ps ! k) = name. burst (ps ! k) - rr_rem s' ! k)"
      using n sum_update_at[OF il il', where P = "\<lambda>k. pid (ps ! k) = name" and f = "\<lambda>k. burst (ps ! k)"
          and v = "rr_rem s ! i - run"]
      by (simp add: b' rem' service_snoc)
  qed
  have other: "pid (ps ! k) \<noteq> pid (ps ! i)" if "k < ?n" "k \<noteq> i" for k
    using nth_eq_iff_index_eq[OF d, of k i] that il by simp
  have Rs': "rr_results ps s'"
    unfolding rr_results_def
  proof (intro conjI allI impI)
    fix k assume kn: "k < ?n"
    from Rs kn have
      k1: "rr_firstStart s ! k = None \<longrightarrow>
            rr_res s (pid (ps ! k)) = None \<and> rr_rem s ! k = burst (ps ! k)"
      and k2: "rr_firstStart s ! k \<noteq> None \<longrightarrow>
              (\<exists>e. rr_res s (pid (ps ! k)) = Some e
                   \<and> (rr_rem s ! k = 0 \<longrightarrow> finalized (ps ! k) e))"
      by (simp_all add: rr_results_def)
    have fsi: "rr_firstStart s' ! i \<noteq> None" using il lf by (simp add: fs')
    {
      assume "rr_firstStart s' ! k = None"
      then have ki: "k \<noteq> i" using fsi by auto
      then have "rr_firstStart s ! k = None" using \<open>rr_firstStart s' ! k = None\<close>
        by (simp add: fs' split: if_splits)
      with k1 have "rr_res s (pid (ps ! k)) = None" "rr_rem s ! k = burst (ps ! k)" by simp_all
      then show "rr_res s' (pid (ps ! k)) = None" "rr_rem s' ! k = burst (ps ! k)"
        using ki kn other[OF kn ki] by (simp_all add: res' res2_def remk)
    }
    {
      assume st: "rr_firstStart s' ! k \<noteq> None"
      show "\<exists>e. rr_res s' (pid (ps ! k)) = Some e \<and> (rr_rem s' ! k = 0 \<longrightarrow> finalized (ps ! k) e)"
      proof (cases "k = i")
        case True
        show ?thesis
        proof (cases "0 < rr_rem s ! i - run")
          case pos: True
          then show ?thesis using True r2 kn by (simp add: res' remk)
        next
          case False
          from tm' ia have "arrival (ps ! i) + (burst (ps ! i) - rr_rem s' ! i) \<le> rr_time s'"
            by (simp add: a')
          moreover have "rr_rem s' ! i = 0" using False run(2) il by (simp add: remk)
          ultimately have "arrival (ps ! i) + burst (ps ! i) \<le> rr_time s + run" by (simp add: t')
          moreover have "rr_time s + run \<le> horizon ps" using run rile hb remnn
            sum_list_nonneg[of "rr_rem s"] by simp
          moreover have "ps ! i \<in> set ps" using il by simp
          ultimately have "finalized (ps ! i) (finalize (ps ! i) (rr_time s + run) r)"
            using finalize_exact[OF f v, of "ps ! i" "rr_time s + run" r] gt grun
            by (simp add: on_grid_add)
          then show ?thesis using True False by (simp add: res')
        qed
      next
        case False
        then have "rr_firstStart s ! k \<noteq> None" using st by (simp add: fs' split: if_splits)
        with k2 obtain e where "rr_res s (pid (ps ! k)) = Some e"
          "rr_rem s ! k = 0 \<longrightarrow> finalized (ps ! k) e" by blast
        then show ?thesis using False kn other[OF kn False] by (simp add: res' res2_def remk)
      qed
    }
  next
    from Rs have "dom (rr_res s) \<subseteq> pid ` set ps" by (simp add: rr_results_def)
    moreover have "pid (ps ! i) \<in> pid ` set ps" using il by simp
    ultimately show "dom (rr_res s') \<subseteq> pid ` set ps"
      by (auto simp: res' res2_def split: if_splits)
  qed
  have "dispatches_left qu (rr_rem s ! i - run) < dispatches_left qu (rr_rem s ! i)"
    unfolding run_def by (rule dispatches_left_decr[OF gq ri])
  then have m1: "sum_list (map (dispatches_left qu) (rr_rem s')) < sum_list (map (dispatches_left qu) (rr_rem s))"
    unfolding rem' by (rule sum_list_update_less[OF il'])
  have "finite (rr_arrived s')" by (simp add: arr')
  moreover have "rr_arrived s \<subseteq> rr_arrived s'" by (auto simp: a')
  ultimately have "card (rr_arrived s) \<le> card (rr_arrived s')" by (rule card_mono)
  with m1 have ms: "rr_measure ps qu s' < rr_measure ps qu s" by (simp add: rr_measure_def)
  have "sum_list (rr_rem s') = sum_list (rr_rem s) + (rr_rem s ! i - run) - rr_rem s ! i"
    unfolding rem' using il' by (rule sum_list_update_real)
  then have sl: "rr_time s' + sum_list (rr_rem s') = rr_time s + sum_list (rr_rem s)"
    by (simp add: t')
  have Ex': "rr_exact k ps s'"
    unfolding rr_exact_def
  proof (intro conjI allI impI)
    show "on_grid k (rr_time s')" using gt grun by (simp add: t' on_grid_add)
    show "0 \<le> rr_time s'" using t0 run(1) by (simp add: t')
    show "rr_time s' + sum_list (rr_rem s') \<le> horizon ps" using sl hb by simp
  next
    fix j assume j: "j < ?n"
    show "on_grid k (rr_rem s' ! j)"
      using gr j grun by (auto simp: remk on_grid_diff)
    show "rr_rem s' ! j \<le> burst (ps ! j)"
      using gr j run(1) by (auto simp: remk intro: order_trans)
  qed
  have hq: "hd (rr_queue s) = i" by (simp add: q)
  have fin: "\<exists>e. rr_res s' (pid (ps ! i)) = Some e \<and> (rr_rem s' ! i = 0 \<longrightarrow> finalized (ps ! i) e)"
  proof -
    have "rr_firstStart s' ! i \<noteq> None" using il lf by (simp add: fs')
    with Rs' il show ?thesis by (simp add: rr_results_def)
  qed
  show ?thesis
    unfolding hq using eq S' Ch' Sv' Rs' Ex' ms t' rem' b' run(1) fin
    by (simp add: rr_inv_def run_def)
qed

lemma find_SomeD: "find P xs = Some x \<Longrightarrow> x \<in> set xs \<and> P x"
  by (induction xs) (auto split: if_splits)


lemma rr_idle_inv:
  fixes qu :: "real option"
  assumes v: "valid ps" and f: "fits k ps"
    and inv: "rr_inv k ps a s" and em: "rr_queue s = []"
    and fd: "find (\<lambda>i. i \<notin> rr_arrived s) [0..<length ps] = Some nextIdx"
  shows "rr_inv k ps a (rr_idle ps nextIdx s)"
    and "rr_measure ps qu (rr_idle ps nextIdx s) < rr_measure ps qu s"
proof -
  let ?n = "length ps"
  let ?s' = "rr_idle ps nextIdx s"
  from v have pos: "\<forall>p\<in>set ps. 0 < burst p" and nn: "\<forall>p\<in>set ps. 0 \<le> arrival p"
    by (auto simp: valid_def)
  from inv have S: "rr_struct ps s" and Ch: "rr_chain a s" and Sv: "rr_serv ps s"
    and Rs: "rr_results ps s" and Ex: "rr_exact k ps s" by (simp_all add: rr_inv_def)
  from Ex have gr: "\<forall>i<?n. on_grid k (rr_rem s ! i) \<and> rr_rem s ! i \<le> burst (ps ! i)"
    by (simp add: rr_exact_def)
  from S have lr: "length (rr_rem s) = ?n" and lf: "length (rr_firstStart s) = ?n"
    and arr: "rr_arrived s = {i. i < ?n \<and> arrival (ps ! i) \<le> rr_time s}"
    and sq: "set (rr_queue s) = {i \<in> rr_arrived s. 0 < rr_rem s ! i}"
    and rem0: "\<forall>i<?n. 0 \<le> rr_rem s ! i \<and> (i \<notin> rr_arrived s \<longrightarrow> rr_rem s ! i = burst (ps ! i))"
    and tm: "\<forall>i\<in>rr_arrived s. arrival (ps ! i) + (burst (ps ! i) - rr_rem s ! i) \<le> rr_time s"
    by (simp_all add: rr_struct_def)
  define nt where "nt = arrival (ps ! nextIdx)"
  from find_SomeD[OF fd] have nl: "nextIdx < ?n" and na: "nextIdx \<notin> rr_arrived s" by auto
  then have later: "rr_time s < nt" using arr by (auto simp: nt_def)
  define new where "new = filter (\<lambda>k. k \<notin> rr_arrived s \<and> arrival (ps ! k) \<le> nt) [0..<?n]"
  have t': "rr_time ?s' = nt" and rem': "rr_rem ?s' = rr_rem s"
    and fs': "rr_firstStart ?s' = rr_firstStart s"
    and q': "rr_queue ?s' = new"
    and a': "rr_arrived ?s' = rr_arrived s \<union> {k. k < ?n \<and> arrival (ps ! k) \<le> nt}"
    and b': "rr_blocks ?s' = rr_blocks s @ [idle_block (rr_time s) nt]"
    and res': "rr_res ?s' = rr_res s"
    by (simp_all add: rr_idle_def Let_def rr_admit_simps nt_def new_def em)
  have arr': "rr_arrived ?s' = {k. k < ?n \<and> arrival (ps ! k) \<le> rr_time ?s'}"
    using later by (auto simp: a' arr t')
  have done_old: "\<not> 0 < rr_rem s ! k" if "k \<in> rr_arrived s" for k
    using sq em that by auto
  have fresh: "0 < rr_rem s ! k" if "k < ?n" "k \<notin> rr_arrived s" for k
    using rem0 that pos by simp
  have sq': "set (rr_queue ?s') = {k \<in> rr_arrived ?s'. 0 < rr_rem ?s' ! k}"
    using done_old fresh by (auto simp: q' new_def a' rem')
  have rem0': "\<forall>k<?n. 0 \<le> rr_rem ?s' ! k \<and> (k \<notin> rr_arrived ?s' \<longrightarrow> rr_rem ?s' ! k = burst (ps ! k))"
    using rem0 by (auto simp: rem' a')
  have tm': "\<forall>k\<in>rr_arrived ?s'. arrival (ps ! k) + (burst (ps ! k) - rr_rem ?s' ! k) \<le> rr_time ?s'"
  proof
    fix k assume k: "k \<in> rr_arrived ?s'"
    then have kn: "k < ?n" by (simp add: arr')
    show "arrival (ps ! k) + (burst (ps ! k) - rr_rem ?s' ! k) \<le> rr_time ?s'"
    proof (cases "k \<in> rr_arrived s")
      case True
      with tm have "arrival (ps ! k) + (burst (ps ! k) - rr_rem s ! k) \<le> rr_time s" by simp
      then show ?thesis using later by (simp add: rem' t')
    next
      case False
      with rem0 kn have "rr_rem s ! k = burst (ps ! k)" by simp
      moreover have "arrival (ps ! k) \<le> rr_time ?s'" using k by (simp add: arr')
      ultimately show ?thesis by (simp add: rem')
    qed
  qed
  have S': "rr_struct ps ?s'"
    unfolding rr_struct_def using lr lf arr' sq' rem0' tm' by (simp add: rem' fs' q' new_def)
  have Ch': "rr_chain a ?s'"
    using Ch later by (auto simp: rr_chain_def b' t' idle_block_def intro!: chain_append)
  have Sv': "rr_serv ps ?s'" using Sv by (simp add: rr_serv_def b' rem')
  have Rs': "rr_results ps ?s'" using Rs by (simp add: rr_results_def rem' fs' res')
  have pn: "ps ! nextIdx \<in> set ps" using nl by simp
  have "sum_list (rr_rem s) \<le> sum_list (map burst ps)"
    using gr lr by (intro sum_list_pointwise_le) simp_all
  then have "nt + sum_list (rr_rem s) \<le> arrival (ps ! nextIdx) + sum_list (map burst ps)"
    by (simp add: nt_def)
  also have "\<dots> \<le> horizon ps" by (rule arrival_le_horizon[OF pos pn])
  finally have hb': "nt + sum_list (rr_rem s) \<le> horizon ps" .
  have Ex': "rr_exact k ps ?s'"
    unfolding rr_exact_def using gr hb' f pn nn
    by (auto simp: t' rem' nt_def fits_def)
  show "rr_inv k ps a ?s'" using S' Ch' Sv' Rs' Ex' by (simp add: rr_inv_def)
  have "nextIdx \<in> rr_arrived ?s'" using nl by (simp add: a' nt_def)
  with na have "rr_arrived s \<subset> rr_arrived ?s'" by (auto simp: a')
  moreover have fin: "finite (rr_arrived ?s')" by (simp add: arr')
  ultimately have c1: "card (rr_arrived s) < card (rr_arrived ?s')" by (simp add: psubset_card_mono)
  have "rr_arrived ?s' \<subseteq> {0..<?n}" by (auto simp: arr')
  then have "card (rr_arrived ?s') \<le> ?n" using card_mono[of "{0..<?n}" "rr_arrived ?s'"] by simp
  with c1 show "rr_measure ps qu ?s' < rr_measure ps qu s"
    by (simp add: rr_measure_def rem')
qed


lemma rr_init_inv:
  assumes v: "valid ps" and ft: "fits k ps" and a: "Math_min (map arrival ps) = Num a"
  shows "rr_inv k ps a (rr_init ps a)"
proof -
  from v have pos: "\<forall>p\<in>set ps. 0 < burst p" and nn: "\<forall>p\<in>set ps. 0 \<le> arrival p"
    by (auto simp: valid_def)
  let ?n = "length ps"
  let ?s = "rr_init ps a"
  from Math_min_attained[OF a] obtain j where j: "j < ?n" "arrival (ps ! j) = a"
    by (auto simp: in_set_conv_nth)
  have f: "rr_time ?s = a" "rr_rem ?s = map burst ps" "rr_firstStart ?s = replicate ?n None"
    "rr_queue ?s = filter (\<lambda>i. arrival (ps ! i) \<le> a) [0..<?n]"
    "rr_arrived ?s = {i. i < ?n \<and> arrival (ps ! i) \<le> a}"
    "rr_blocks ?s = []" "rr_res ?s = Map.empty"
    by (auto simp: rr_init_def Let_def)
  have posn: "0 < burst (ps ! i)" if "i < ?n" for i using pos that by simp
  have S: "rr_struct ps ?s"
    unfolding rr_struct_def using posn by (auto simp: f less_imp_le)
  have "j \<in> set (rr_queue ?s)" using j by (simp add: f)
  then have Ch: "rr_chain a ?s" by (auto simp: rr_chain_def f(1,6))
  have Sv: "rr_serv ps ?s" by (simp add: rr_serv_def f)
  have Rs: "rr_results ps ?s" by (simp add: rr_results_def f)
  have pj: "ps ! j \<in> set ps" using j(1) by simp
  have "a + sum_list (map burst ps) \<le> horizon ps"
    using arrival_le_horizon[OF pos pj] j(2) by simp
  moreover have "on_grid k (arrival p) \<and> on_grid k (burst p)" if "p \<in> set ps" for p
    using ft that by (simp add: fits_def)
  ultimately have Ex: "rr_exact k ps ?s"
    using pj j(2) nn by (auto simp: rr_exact_def f(1,2))
  show ?thesis using S Ch Sv Rs Ex by (simp add: rr_inv_def)
qed



section \<open>Round-Robin on every list: one results entry per pid, no exception\<close>

lemma rr_init_sound: "rr_sound ps (rr_init ps a)"
  by (auto simp: rr_sound_def rr_init_def Let_def)

lemma rr_idle_sound:
  assumes snd: "rr_sound ps s" and em: "rr_queue s = []"
  shows "rr_sound ps (rr_idle ps nextIdx s)"
proof -
  let ?n = "length ps"
  let ?s' = "rr_idle ps nextIdx s"
  define nt where "nt = arrival (ps ! nextIdx)"
  define new where "new = filter (\<lambda>k. k \<notin> rr_arrived s \<and> arrival (ps ! k) \<le> nt) [0..<?n]"
  have rem': "rr_rem ?s' = rr_rem s" and fs': "rr_firstStart ?s' = rr_firstStart s"
    and q': "rr_queue ?s' = new"
    and a': "rr_arrived ?s' = rr_arrived s \<union> {k. k < ?n \<and> arrival (ps ! k) \<le> nt}"
    and res': "rr_res ?s' = rr_res s"
    by (simp_all add: rr_idle_def Let_def rr_admit_simps nt_def new_def em)
  from snd em have old: "\<forall>i\<in>rr_arrived s. rr_firstStart s ! i \<noteq> None"
    by (auto simp: rr_sound_def)
  show ?thesis
    unfolding rr_sound_def rem' fs' q' a' res'
    using snd old by (auto simp: rr_sound_def new_def)
qed

lemma rr_dispatch_sound:
  fixes qu :: "real option"
  assumes snd: "rr_sound ps s" and ne: "rr_queue s \<noteq> []"
  shows "\<exists>s'. rr_dispatch ps qu s = Inr s' \<and> rr_sound ps s'"
proof -
  let ?n = "length ps"
  from ne obtain i rest where q: "rr_queue s = i # rest" by (cases "rr_queue s") auto
  from snd have lr: "length (rr_rem s) = ?n" and lf: "length (rr_firstStart s) = ?n"
    and qs: "set (rr_queue s) \<subseteq> {0..<?n}" and as: "rr_arrived s \<subseteq> {0..<?n}"
    and fr: "\<forall>i<?n. rr_firstStart s ! i \<noteq> None \<longrightarrow> rr_res s (pid (ps ! i)) \<noteq> None"
    and wq: "\<forall>i\<in>rr_arrived s. rr_firstStart s ! i = None \<longrightarrow> i \<in> set (rr_queue s)"
    and dm: "dom (rr_res s) \<subseteq> pid ` set ps"
    by (simp_all add: rr_sound_def)
  have il: "i < ?n" using qs q by simp
  have il': "i < length (rr_rem s)" using il lr by simp
  have fsr: "rr_firstStart s ! i \<noteq> None \<longrightarrow> rr_res s (pid (ps ! i)) \<noteq> None" using fr il by simp
  define run where "run = rr_slice qu (rr_rem s ! i)"
  define res2 where "res2 = (if rr_firstStart s ! i = None
                    then (rr_res s)(pid (ps ! i) \<mapsto> first_result (ps ! i) (rr_time s))
                    else rr_res s)"
  define new where
    "new = filter (\<lambda>k. k \<notin> rr_arrived s \<and> arrival (ps ! k) \<le> js_add (rr_time s) run) [0..<?n]"
  from rr_dispatch_eq[OF q fsr il', of qu, folded run_def res2_def, folded new_def]
  obtain s' r where
    eq: "rr_dispatch ps qu s = Inr s'"
    and rem': "rr_rem s' = (rr_rem s)[i := js_sub (rr_rem s ! i) run]"
    and fs': "rr_firstStart s' =
         (if rr_firstStart s ! i = None then (rr_firstStart s)[i := Some (rr_time s)]
          else rr_firstStart s)"
    and q': "rr_queue s' = rest @ new @ (if 0 < js_sub (rr_rem s ! i) run then [i] else [])"
    and a': "rr_arrived s' =
         rr_arrived s \<union> {k. k < ?n \<and> arrival (ps ! k) \<le> js_add (rr_time s) run}"
    and r2: "res2 (pid (ps ! i)) = Some r"
    and res': "rr_res s' =
              (if 0 < js_sub (rr_rem s ! i) run then res2
               else res2(pid (ps ! i) \<mapsto> finalize (ps ! i) (js_add (rr_time s) run) r))"
    by blast
  have fsi: "rr_firstStart s' ! i \<noteq> None" using il lf by (simp add: fs')
  have fsk: "rr_firstStart s' ! j = rr_firstStart s ! j" if "j \<noteq> i" for j
    using that by (simp add: fs')
  have keep: "res2 x \<noteq> None" if "rr_res s x \<noteq> None" for x
    using that by (simp add: res2_def)
  have keep': "rr_res s' x \<noteq> None" if "res2 x \<noteq> None" for x
    using that by (simp add: res')
  have pi: "pid (ps ! i) \<in> pid ` set ps" using il by simp
  have "rr_sound ps s'"
    unfolding rr_sound_def
  proof (intro conjI ballI allI impI)
    show "length (rr_rem s') = ?n" using lr by (simp add: rem')
    show "length (rr_firstStart s') = ?n" using lf by (simp add: fs')
    show "set (rr_queue s') \<subseteq> {0..<?n}" using qs q il by (auto simp: q' new_def)
    show "rr_arrived s' \<subseteq> {0..<?n}" using as by (auto simp: a')
    show "dom (rr_res s') \<subseteq> pid ` set ps"
      using dm pi by (auto simp: res' res2_def split: if_splits)
  next
    fix j assume j: "j < ?n" and st: "rr_firstStart s' ! j \<noteq> None"
    show "rr_res s' (pid (ps ! j)) \<noteq> None"
    proof (cases "j = i")
      case True
      then show ?thesis using r2 by (intro keep') simp
    next
      case False
      with st have "rr_firstStart s ! j \<noteq> None" by (simp add: fsk)
      with fr j have "rr_res s (pid (ps ! j)) \<noteq> None" by simp
      then show ?thesis by (intro keep' keep)
    qed
  next
    fix j assume j: "j \<in> rr_arrived s'" and st: "rr_firstStart s' ! j = None"
    from st fsi have ji: "j \<noteq> i" by auto
    with st have st0: "rr_firstStart s ! j = None" by (simp add: fsk)
    show "j \<in> set (rr_queue s')"
    proof (cases "j \<in> rr_arrived s")
      case True
      with wq st0 have "j \<in> set (rr_queue s)" by simp
      with ji q show ?thesis by (simp add: q')
    next
      case False
      with j have "j \<in> set new" by (auto simp: a' new_def)
      then show ?thesis by (simp add: q')
    qed
  qed
  with eq show ?thesis by blast
qed

lemma rr_loop_sound:
  assumes "rr_loop ps qu s = Some y"
  shows "rr_sound ps s \<longrightarrow>
     (\<exists>t. y = Inr t \<and> rr_sound ps t \<and> rr_queue t = [] \<and> {0..<length ps} \<subseteq> rr_arrived t)"
proof (rule rr_loop.raw_induct[OF _ assms])
  fix f :: "process list \<Rightarrow> real option \<Rightarrow> rr_state \<Rightarrow> (error + rr_state) option"
    and ps :: "process list" and qu :: "real option" and s :: rr_state
    and y :: "error + rr_state"
  assume IH: "\<And>ps qu s y. f ps qu s = Some y \<Longrightarrow>
      rr_sound ps s \<longrightarrow>
      (\<exists>t. y = Inr t \<and> rr_sound ps t \<and> rr_queue t = [] \<and> {0..<length ps} \<subseteq> rr_arrived t)"
  assume eq: "(if rr_queue s \<noteq> [] \<or> card (rr_arrived s) < length ps
      then if rr_queue s = []
           then case find (\<lambda>i. i \<notin> rr_arrived s) [0..<length ps] of
                None \<Rightarrow> Some (Inr s)
                | Some nextIdx \<Rightarrow> f ps qu (rr_idle ps nextIdx s)
           else case rr_dispatch ps qu s of Inl e \<Rightarrow> Some (Inl e)
                | Inr s' \<Rightarrow> f ps qu s'
      else Some (Inr s)) = Some y"
  show "rr_sound ps s \<longrightarrow>
      (\<exists>t. y = Inr t \<and> rr_sound ps t \<and> rr_queue t = [] \<and> {0..<length ps} \<subseteq> rr_arrived t)"
  proof
    assume snd: "rr_sound ps s"
    then have sub: "rr_arrived s \<subseteq> {0..<length ps}" by (simp add: rr_sound_def)
    show "\<exists>t. y = Inr t \<and> rr_sound ps t \<and> rr_queue t = [] \<and> {0..<length ps} \<subseteq> rr_arrived t"
    proof (cases "rr_queue s \<noteq> [] \<or> card (rr_arrived s) < length ps")
      case False
      then have em: "rr_queue s = []" and c: "\<not> card (rr_arrived s) < length ps" by simp_all
      have "card (rr_arrived s) \<le> length ps"
        using sub card_mono[of "{0..<length ps}" "rr_arrived s"] by simp
      with c have "card (rr_arrived s) = card {0..<length ps}" by simp
      with sub have "rr_arrived s = {0..<length ps}" by (simp add: card_subset_eq)
      with False eq snd em show ?thesis by auto
    next
      case True
      show ?thesis
      proof (cases "rr_queue s = []")
        case em: True
        show ?thesis
        proof (cases "find (\<lambda>i. i \<notin> rr_arrived s) [0..<length ps]")
          case None
          then have "{0..<length ps} \<subseteq> rr_arrived s" by (auto simp: find_None_iff)
          with None True em eq snd show ?thesis by auto
        next
          case (Some nextIdx)
          with True em eq have "f ps qu (rr_idle ps nextIdx s) = Some y" by simp
          from IH[OF this] rr_idle_sound[OF snd em] show ?thesis by simp
        qed
      next
        case ne: False
        from rr_dispatch_sound[OF snd ne, of qu] obtain s' where
          d: "rr_dispatch ps qu s = Inr s'" and snd': "rr_sound ps s'" by blast
        with True ne eq have "f ps qu s' = Some y" by simp
        from IH[OF this] snd' show ?thesis by simp
      qed
    qed
  qed
qed

lemma roundRobin_sound:
  assumes r: "roundRobin ps q = Some y" and q: "js_gt0 q"
  shows "\<exists>r. y = Inr r \<and> dom (results r) = pid ` set ps"
proof (cases ps)
  case Nil
  with r q have "y = Inr (empty_result PosInf)" by (simp add: roundRobin_def)
  then show ?thesis using Nil by (simp add: empty_result_def)
next
  case (Cons p0 qs)
  then have ne: "ps \<noteq> []" by simp
  from Math_min_Num[OF ne] obtain a where a: "Math_min (map arrival ps) = Num a" by blast
  let ?qu = "case q of Num x \<Rightarrow> Some x | other \<Rightarrow> None"
  from r q a obtain z where z: "rr_loop ps ?qu (rr_init ps a) = Some z"
    by (cases "rr_loop ps ?qu (rr_init ps a)") (simp_all add: roundRobin_def)
  from rr_loop_sound[OF z] rr_init_sound obtain t where
    t: "z = Inr t" and snd: "rr_sound ps t" and em: "rr_queue t = []"
    and all: "{0..<length ps} \<subseteq> rr_arrived t" by blast
  have y: "y = Inr \<lparr>blocks = rr_blocks t, results = rr_res t, endTime = Num (rr_time t)\<rparr>"
    using r q a z t by (simp add: roundRobin_def)
  have "pid p \<in> dom (rr_res t)" if "p \<in> set ps" for p
  proof -
    from that obtain j where j: "j < length ps" "ps ! j = p" by (auto simp: in_set_conv_nth)
    then have "j \<in> rr_arrived t" using all by auto
    with snd em have "rr_firstStart t ! j \<noteq> None" by (auto simp: rr_sound_def)
    with snd j(1) have "rr_res t (pid (ps ! j)) \<noteq> None" by (simp add: rr_sound_def)
    with j(2) show ?thesis by auto
  qed
  moreover from snd have "dom (rr_res t) \<subseteq> pid ` set ps" by (simp add: rr_sound_def)
  ultimately have "dom (rr_res t) = pid ` set ps" by auto
  with y show ?thesis by simp
qed

section \<open>SRTF: the steps of the loop keep the invariants\<close>







lemma srtf_pick_fold:
  "fold (srtf_consider lc ps rem dn t) xs b = Some k \<Longrightarrow>
     b = Some k \<or> (k \<in> set xs \<and> k \<notin> dn \<and> arrival (ps ! k) \<le> t \<and> 0 < rem ! k)"
proof (induction xs arbitrary: b)
  case Nil
  then show ?case by simp
next
  case (Cons x xs)
  from Cons.IH[of "srtf_consider lc ps rem dn t x b"] Cons.prems
  have "srtf_consider lc ps rem dn t x b = Some k
        \<or> (k \<in> set xs \<and> k \<notin> dn \<and> arrival (ps ! k) \<le> t \<and> 0 < rem ! k)" by simp
  then show ?case by (auto simp: srtf_consider_def split: if_splits)
qed

lemma srtf_pick_Some:
  "srtf_pick lc ps s = Some k \<Longrightarrow>
     k < length ps \<and> k \<notin> s_done s \<and> arrival (ps ! k) \<le> s_time s \<and> 0 < s_rem s ! k"
  unfolding srtf_pick_def by (drule srtf_pick_fold) auto




section \<open>SRTF on every list: one results entry per pid, no exception\<close>

lemma srtf_idle_sound: "srtf_sound ps s \<Longrightarrow> srtf_sound ps (srtf_idle s)"
  by (simp add: srtf_sound_def srtf_idle_def srtf_switch_def Let_def)

lemma srtf_run_sound:
  assumes snd: "srtf_sound ps s" and bl: "best < length ps"
  shows "\<exists>s'. srtf_run ps best s = Inr s' \<and> srtf_sound ps s'"
proof -
  let ?n = "length ps"
  let ?p = "ps ! best"
  from snd have lr: "length (s_rem s) = ?n" and ls: "length (s_started s) = ?n"
    and dn: "s_done s \<subseteq> {0..<?n}" "\<forall>k\<in>s_done s. s_started s ! k"
    and dm: "dom (s_res s) = (\<lambda>k. pid (ps ! k)) ` {k. k < ?n \<and> s_started s ! k}"
    by (simp_all add: srtf_sound_def)
  define s1 where "s1 = (if \<not> s_started s ! best
                then s\<lparr>s_started := (s_started s)[best := True],
                       s_res := (s_res s)(pid ?p \<mapsto> first_result ?p (s_time s))\<rparr>
                else s)"
  have f1: "s_rem s1 = s_rem s" "s_done s1 = s_done s"
    "s_started s1 = (s_started s)[best := True]"
  proof -
    have "(s_started s)[best := True] = s_started s" if "s_started s ! best"
      using list_update_id[of "s_started s" best] that by simp
    then show "s_started s1 = (s_started s)[best := True]" by (simp add: s1_def)
    show "s_rem s1 = s_rem s" "s_done s1 = s_done s" by (simp_all add: s1_def)
  qed
  have dm1: "dom (s_res s1) = (\<lambda>k. pid (ps ! k)) ` {k. k < ?n \<and> s_started s1 ! k}"
  proof (cases "s_started s ! best")
    case True
    then have "s1 = s" by (simp add: s1_def)
    then show ?thesis using dm by simp
  next
    case False
    have "{k. k < ?n \<and> (s_started s)[best := True] ! k} = insert best {k. k < ?n \<and> s_started s ! k}"
      using bl ls by (auto simp: nth_list_update)
    then show ?thesis using False dm by (simp add: f1(3)) (simp add: s1_def)
  qed
  have in1: "pid ?p \<in> dom (s_res s1)"
    unfolding dm1 using bl ls by (auto simp: f1(3))
  then obtain r where r: "s_res s1 (pid ?p) = Some r" by auto
  define s3 where "s3 = (srtf_switch (pid ?p) s1)
        \<lparr>s_rem := (s_rem (srtf_switch (pid ?p) s1))
                    [best := js_sub (s_rem (srtf_switch (pid ?p) s1) ! best) 1],
         s_time := js_add (s_time (srtf_switch (pid ?p) s1)) 1\<rparr>"
  have f3: "length (s_rem s3) = ?n" "s_started s3 = (s_started s)[best := True]"
    "s_done s3 = s_done s" "s_res s3 = s_res s1"
    using lr by (simp_all add: s3_def srtf_switch_def f1)
  define s' where "s' = (if s_rem s3 ! best = 0
      then s3\<lparr>s_res := (s_res s3)(pid ?p \<mapsto> finalize ?p (s_time s3) r),
              s_done := insert best (s_done s3)\<rparr>
      else s3)"
  have run: "srtf_run ps best s = Inr s'"
    unfolding srtf_run_def Let_def s1_def[symmetric] s3_def[symmetric] s'_def
    using r by (simp add: f3)
  have g: "length (s_rem s') = ?n" "s_started s' = (s_started s)[best := True]"
    "s_done s' \<subseteq> insert best (s_done s)" "dom (s_res s') = dom (s_res s1)"
    using in1 by (auto simp: s'_def f3)
  have "srtf_sound ps s'"
    unfolding srtf_sound_def
  proof (intro conjI ballI)
    show "length (s_rem s') = ?n" by (rule g(1))
    show "length (s_started s') = ?n" using ls by (simp add: g(2))
    show "s_done s' \<subseteq> {0..<?n}" using g(3) dn(1) bl by auto
    show "dom (s_res s') = (\<lambda>k. pid (ps ! k)) ` {k. k < ?n \<and> s_started s' ! k}"
      using dm1 by (simp add: g f1)
  next
    fix k assume "k \<in> s_done s'"
    with g(3) have "k = best \<or> k \<in> s_done s" by auto
    then show "s_started s' ! k"
      using dn bl ls by (auto simp: g(2) nth_list_update)
  qed
  with run show ?thesis by blast
qed

lemma srtf_loop_sound:
  assumes "srtf_loop lc ps s = Some y"
  shows "srtf_sound ps s \<longrightarrow> (\<exists>t. y = Inr t \<and> srtf_sound ps t \<and> \<not> card (s_done t) < length ps)"
proof (rule srtf_loop.raw_induct[OF _ assms])
  fix f :: "collation \<Rightarrow> process list \<Rightarrow> srtf_state \<Rightarrow> (error + srtf_state) option"
    and lc :: collation and ps :: "process list" and s :: srtf_state and y :: "error + srtf_state"
  assume IH: "\<And>lc ps s y. f lc ps s = Some y \<Longrightarrow>
      srtf_sound ps s \<longrightarrow> (\<exists>t. y = Inr t \<and> srtf_sound ps t \<and> \<not> card (s_done t) < length ps)"
  assume eq: "(if card (s_done s) < length ps
      then case srtf_pick lc ps s of
           None \<Rightarrow> f lc ps (srtf_idle s)
           | Some best \<Rightarrow>
               (case srtf_run ps best s of Inl e \<Rightarrow> Some (Inl e)
                | Inr s' \<Rightarrow> f lc ps s')
      else Some (Inr s)) = Some y"
  show "srtf_sound ps s \<longrightarrow> (\<exists>t. y = Inr t \<and> srtf_sound ps t \<and> \<not> card (s_done t) < length ps)"
  proof
    assume snd: "srtf_sound ps s"
    show "\<exists>t. y = Inr t \<and> srtf_sound ps t \<and> \<not> card (s_done t) < length ps"
    proof (cases "card (s_done s) < length ps")
      case False
      with eq snd show ?thesis by auto
    next
      case True
      show ?thesis
      proof (cases "srtf_pick lc ps s")
        case None
        with eq True have "f lc ps (srtf_idle s) = Some y" by simp
        from IH[OF this] srtf_idle_sound[OF snd] show ?thesis by simp
      next
        case (Some best)
        from srtf_pick_Some[OF Some] have "best < length ps" by simp
        from srtf_run_sound[OF snd this] obtain s' where
          r: "srtf_run ps best s = Inr s'" and snd': "srtf_sound ps s'" by blast
        with eq True Some have "f lc ps s' = Some y" by simp
        from IH[OF this] snd' show ?thesis by simp
      qed
    qed
  qed
qed

lemma srtf_sound:
  assumes r: "srtf lc ps = Some y"
  shows "\<exists>r. y = Inr r \<and> dom (results r) = pid ` set ps"
proof (cases ps)
  case Nil
  with r have "y = Inr (empty_result PosInf)" by (simp add: srtf_def)
  then show ?thesis using Nil by (simp add: empty_result_def)
next
  case (Cons p0 qs)
  then have ne: "ps \<noteq> []" by simp
  let ?n = "length ps"
  from Math_min_Num[OF ne] obtain a where a: "Math_min (map arrival ps) = Num a" by blast
  from r a obtain z where z: "srtf_loop lc ps (srtf_init ps a) = Some z"
    by (cases "srtf_loop lc ps (srtf_init ps a)") (simp_all add: srtf_def)
  have "srtf_sound ps (srtf_init ps a)" by (simp add: srtf_sound_def srtf_init_def)
  with srtf_loop_sound[OF z] obtain t where t: "z = Inr t" and snd: "srtf_sound ps t"
    and c: "\<not> card (s_done t) < ?n" by blast
  have y: "y = Inr (srtf_finish t)" using r a z t by (simp add: srtf_def)
  from snd have dn: "s_done t \<subseteq> {0..<?n}" "\<forall>k\<in>s_done t. s_started t ! k"
    and dm: "dom (s_res t) = (\<lambda>k. pid (ps ! k)) ` {k. k < ?n \<and> s_started t ! k}"
    by (simp_all add: srtf_sound_def)
  have "card (s_done t) \<le> ?n" using dn(1) card_mono[of "{0..<?n}" "s_done t"] by simp
  with c have "card (s_done t) = card {0..<?n}" by simp
  with dn(1) have all: "s_done t = {0..<?n}" by (simp add: card_subset_eq)
  have "{k. k < ?n \<and> s_started t ! k} = {0..<?n}" using dn(2) all by auto
  then have "dom (results (srtf_finish t)) = pid ` set ps"
    using dm pid_image_indices[of ps] by (simp add: srtf_finish_def)
  with y show ?thesis by simp
qed

section \<open>SRTF where arrivals and bursts are whole numbers within the precision\<close>












section \<open>Runs on concrete inputs\<close>

lemma tie_run:
  assumes "lc ''A'' ''B'' < 0"
  shows "srtf lc tie_input =
     Some (Inr \<lparr>blocks =
        [\<lparr>b_pid = ''B'', b_start = 0, b_end = 1\<rparr>,
         \<lparr>b_pid = ''A'', b_start = 1, b_end = 3\<rparr>,
         \<lparr>b_pid = ''B'', b_start = 3, b_end = 5\<rparr>],
       results =
        [''B'' \<mapsto> \<lparr>start = 0, completion = 5, tat = 5, wt = 2, response = 0,
                   arrival_of = 0, burst_of = 3, priority_of = 0\<rparr>,
         ''A'' \<mapsto> \<lparr>start = 1, completion = 3, tat = 2, wt = 0, response = 0,
                   arrival_of = 1, burst_of = 2, priority_of = 0\<rparr>],
       endTime = Num 5\<rparr>)"
  using assms by (simp add: tie_input_def srtf_eval fun_upd_twist)

lemma tie_first_tick: "srtf_run tie_input 0 (srtf_init tie_input 0) = Inr tie_state"
  by (simp add: tie_input_def tie_state_def srtf_eval)

lemma tie_pick: "lc ''A'' ''B'' < 0 \<Longrightarrow> srtf_pick lc tie_input tie_state = Some 1"
  by (simp add: tie_input_def tie_state_def srtf_eval)

lemma tie_read: "readProcesses lc tie_rows = Inr tie_input"
  by (simp add: readProcesses_def tie_rows_def tie_input_def sort_by_def read_cmp_def js_or_def
      js_eval)

lemma half_idle: "half_inv s \<Longrightarrow> half_inv (srtf_idle s)"
  by (simp add: half_inv_def srtf_idle_def srtf_switch_def Let_def)

lemma half_run:
  assumes "half_inv s" "srtf_pick lc half_input s = Some best"
  shows "\<exists>s'. srtf_run half_input best s = Inr s' \<and> half_inv s'"
proof -
  from srtf_pick_Some[OF assms(2)] have b: "best = 0" and r: "0 < s_rem s ! 0"
    by (auto simp: half_input_def)
  from assms(1) r have "s_rem s = [3 / 2] \<or> s_rem s = [1 / 2]" and d: "s_done s = {}"
    by (auto simp: half_inv_def)
  then show ?thesis
    using d unfolding b
    by (auto simp: half_inv_def srtf_run_def Let_def srtf_switch_def js_sub_def rd_halves)
qed

lemma half_loop:
  assumes "srtf_loop lc ps s = Some y"
  shows "ps = half_input \<longrightarrow> \<not> half_inv s"
proof (rule srtf_loop.raw_induct[OF _ assms])
  fix f :: "collation \<Rightarrow> process list \<Rightarrow> srtf_state \<Rightarrow> (error + srtf_state) option"
    and lc :: collation and ps :: "process list" and s :: srtf_state and y :: "error + srtf_state"
  assume IH: "\<And>lc ps s y. f lc ps s = Some y \<Longrightarrow> ps = half_input \<longrightarrow> \<not> half_inv s"
  assume eq: "(if card (s_done s) < length ps
      then case srtf_pick lc ps s of
           None \<Rightarrow> f lc ps (srtf_idle s)
           | Some best \<Rightarrow>
               (case srtf_run ps best s of Inl e \<Rightarrow> Some (Inl e)
                | Inr s' \<Rightarrow> f lc ps s')
      else Some (Inr s)) = Some y"
  show "ps = half_input \<longrightarrow> \<not> half_inv s"
  proof (intro impI notI)
    assume ps: "ps = half_input" and J: "half_inv s"
    then have c: "card (s_done s) < length ps" by (simp add: half_inv_def half_input_def)
    show False
    proof (cases "srtf_pick lc ps s")
      case None
      with eq c have "f lc ps (srtf_idle s) = Some y" by simp
      from IH[OF this] ps half_idle[OF J] show False by simp
    next
      case (Some best)
      from half_run[OF J Some[unfolded ps]] obtain s' where
        "srtf_run ps best s = Inr s'" "half_inv s'" unfolding ps by blast
      with eq c Some have "f lc ps s' = Some y" "half_inv s'" by simp_all
      with IH[of lc ps s' y] ps show False by simp
    qed
  qed
qed

lemma half_diverges: "srtf lc half_input = None"
proof -
  have "half_inv (srtf_init half_input 0)"
    by (simp add: half_inv_def srtf_init_def half_input_def)
  then have "srtf_loop lc half_input (srtf_init half_input 0) = None"
    using half_loop[of lc half_input "srtf_init half_input 0"]
    by (cases "srtf_loop lc half_input (srtf_init half_input 0)") auto
  then show ?thesis by (simp add: srtf_def half_input_def)
qed

lemma half_read: "readProcesses lc half_rows = Inr half_input"
  by (simp add: readProcesses_def half_rows_def half_input_def sort_by_def)

lemma rr_scenario_run:
  "roundRobin rr_scenario (Num 2) =
     Some (Inr \<lparr>blocks =
        [\<lparr>b_pid = ''P1'', b_start = 0, b_end = 2\<rparr>,
         \<lparr>b_pid = ''P2'', b_start = 2, b_end = 4\<rparr>,
         \<lparr>b_pid = ''P1'', b_start = 4, b_end = 6\<rparr>,
         \<lparr>b_pid = ''P2'', b_start = 6, b_end = 7\<rparr>,
         \<lparr>b_pid = ''P1'', b_start = 7, b_end = 8\<rparr>],
       results =
        [''P1'' \<mapsto> \<lparr>start = 0, completion = 8, tat = 8, wt = 3, response = 0,
                   arrival_of = 0, burst_of = 5, priority_of = 0\<rparr>,
         ''P2'' \<mapsto> \<lparr>start = 2, completion = 7, tat = 6, wt = 3, response = 1,
                   arrival_of = 1, burst_of = 3, priority_of = 0\<rparr>],
       endTime = Num 8\<rparr>)"
  by (simp add: rr_scenario_def rr_eval fun_upd_twist)





section \<open>Round-Robin on a burst the quantum cannot reduce\<close>




section \<open>Facts about the concrete inputs\<close>

lemma valid_tie_input: "valid tie_input"
  by (simp add: valid_def tie_input_def)




lemma code_units_A_B: "by_code_units ''A'' ''B'' < 0"
  by simp










section \<open>Timeline coverage (C1)\<close>




section \<open>Conservation of service time (C6)\<close>





section \<open>The tie-break of SRTF (C2)\<close>

text \<open>
  C2 asks that, among arrived and incomplete processes of equal remaining burst, SRTF
  dispatches the one that arrived earlier. On B(0,3), A(1,2) the code does not: after the
  first tick both have remaining burst 2, B arrived earlier, and the selection loop
  returns index 1, which is A (its pid compares smaller, and the pid test does not ask for
  equal arrivals). The blocks returned are [B 0-1, A 1-3, B 3-5]. This holds in every
  collation that puts \<open>A\<close> before \<open>B\<close>.
\<close>

theorem srtf_tie_prefers_smaller_pid:
  assumes "lc ''A'' ''B'' < 0"
  shows "readProcesses lc tie_rows = Inr tie_input
   \<and> srtf_run tie_input 0 (srtf_init tie_input 0) = Inr tie_state
   \<and> s_rem tie_state = [2, 2]
   \<and> srtf_pick lc tie_input tie_state = Some 1
   \<and> map_option blocks (returned (srtf lc tie_input)) =
       Some [\<lparr>b_pid = ''B'', b_start = 0, b_end = 1\<rparr>,
             \<lparr>b_pid = ''A'', b_start = 1, b_end = 3\<rparr>,
             \<lparr>b_pid = ''B'', b_start = 3, b_end = 5\<rparr>]"
  using assms
  by (simp add: tie_read tie_first_tick tie_pick tie_run returned_def) (simp add: tie_state_def)

theorem srtf_tie_prefers_smaller_pid_witness:
  "by_code_units ''A'' ''B'' < 0
   \<and> readProcesses by_code_units tie_rows = Inr tie_input
   \<and> srtf_run tie_input 0 (srtf_init tie_input 0) = Inr tie_state
   \<and> s_rem tie_state = [2, 2]
   \<and> srtf_pick by_code_units tie_input tie_state = Some 1
   \<and> map_option blocks (returned (srtf by_code_units tie_input)) =
       Some [\<lparr>b_pid = ''B'', b_start = 0, b_end = 1\<rparr>,
             \<lparr>b_pid = ''A'', b_start = 1, b_end = 3\<rparr>,
             \<lparr>b_pid = ''B'', b_start = 3, b_end = 5\<rparr>]"
  using srtf_tie_prefers_smaller_pid[of by_code_units] code_units_A_B by blast

section \<open>Termination (C3)\<close>

text \<open>
  C3 asks that every algorithm terminates on every process set with arrivals \<open>\<ge> 0\<close> and
  bursts \<open>> 0\<close>, whole numbers or not. \<open>readProcesses\<close> accepts the burst 1.5, and on the
  single process P1(0, 1.5) the loop of \<open>srtf\<close> never ends: the remaining time goes
  1.5, 0.5, -0.5 and is never \<open>=== 0\<close>, so the process is never added to \<open>done\<close>.
\<close>

theorem srtf_fractional_burst_diverges:
  "readProcesses lc half_rows = Inr half_input \<and> srtf lc half_input = None"
  by (simp add: half_read half_diverges)

section \<open>The Round-Robin scenario (C5)\<close>

text \<open>
  C5, as the specification states it, fails: the blocks Round-Robin returns for
  P1(0,5), P2(1,3) with quantum 2 are not [P1 0-2, P2 2-4, P1 4-6, P2 6-7]. Those four
  blocks give P1 only four of its five units of service.
\<close>

theorem rr_scenario_not_four_blocks:
  "map_option blocks (returned (roundRobin rr_scenario (Num 2))) \<noteq>
     Some [\<lparr>b_pid = ''P1'', b_start = 0, b_end = 2\<rparr>,
           \<lparr>b_pid = ''P2'', b_start = 2, b_end = 4\<rparr>,
           \<lparr>b_pid = ''P1'', b_start = 4, b_end = 6\<rparr>,
           \<lparr>b_pid = ''P2'', b_start = 6, b_end = 7\<rparr>]"
  by (simp add: rr_scenario_run returned_def)

text \<open>
  C5, amended: for P1(0,5), P2(1,3) with quantum 2, Round-Robin returns exactly the blocks
  [P1 0-2, P2 2-4, P1 4-6, P2 6-7, P1 7-8]; the completion time of P1 is 8 and that of
  P2 is 7.
\<close>

theorem rr_scenario_five_blocks:
  "map_option blocks (returned (roundRobin rr_scenario (Num 2))) =
     Some [\<lparr>b_pid = ''P1'', b_start = 0, b_end = 2\<rparr>,
           \<lparr>b_pid = ''P2'', b_start = 2, b_end = 4\<rparr>,
           \<lparr>b_pid = ''P1'', b_start = 4, b_end = 6\<rparr>,
           \<lparr>b_pid = ''P2'', b_start = 6, b_end = 7\<rparr>,
           \<lparr>b_pid = ''P1'', b_start = 7, b_end = 8\<rparr>]
   \<and> map_option (\<lambda>r. completion_of r ''P1'') (returned (roundRobin rr_scenario (Num 2))) = Some (Some 8)
   \<and> map_option (\<lambda>r. completion_of r ''P2'') (returned (roundRobin rr_scenario (Num 2))) = Some (Some 7)"
  by (simp add: rr_scenario_run returned_def completion_of_def)

section \<open>The quantum guard of Round-Robin (C8)\<close>




section \<open>Termination of Round-Robin (C10)\<close>

lemma rr_reach_inv:
  assumes v: "valid ps" and f: "fits k ps" and gq: "good_quantum k qu"
    and a: "Math_min (map arrival ps) = Num a"
  shows "rr_reach ps qu s \<Longrightarrow> rr_inv k ps a s"
proof (induction rule: rr_reach.induct)
  case (init b)
  with a have "b = a" by simp
  then show ?case using rr_init_inv[OF v f a] by simp
next
  case (idle s nextIdx)
  then show ?case using rr_idle_inv(1)[OF v f] by blast
next
  case (dispatch s s')
  from rr_dispatch_inv[OF v f gq dispatch.IH dispatch.hyps(2)] dispatch.hyps(3)
  show ?case by auto
qed





section \<open>Validation of the input (C9)\<close>

lemma read_rows_Inr:
  "read_rows rows seen procs = Inr ps \<Longrightarrow>
     \<exists>new. ps = procs @ new \<and> map pid new = map row_pid rows \<and> distinct (map row_pid rows)
          \<and> set (map row_pid rows) \<inter> seen = {}
          \<and> (\<forall>p\<in>set new. 0 \<le> arrival p \<and> 0 < burst p)"
proof (induction rows arbitrary: seen procs)
  case Nil
  then show ?case by simp
next
  case (Cons tr rows)
  from Cons.prems obtain a b p where
    ok: "row_pid tr \<notin> seen" "row_at tr = Num a" "0 \<le> a" "row_bt tr = Num b" "0 < b"
      "row_pr tr = Num p"
    and rest: "read_rows rows (insert (row_pid tr) seen)
        (procs @ [\<lparr>pid = row_pid tr, arrival = a, burst = b, priority = p\<rparr>]) = Inr ps"
    by (auto split: if_splits jsnum.splits)
  from Cons.IH[OF rest] obtain new where
    new: "ps = (procs @ [\<lparr>pid = row_pid tr, arrival = a, burst = b, priority = p\<rparr>]) @ new"
      "map pid new = map row_pid rows" "distinct (map row_pid rows)"
      "set (map row_pid rows) \<inter> insert (row_pid tr) seen = {}"
      "\<forall>p\<in>set new. 0 \<le> arrival p \<and> 0 < burst p"
    by blast
  let ?new = "\<lparr>pid = row_pid tr, arrival = a, burst = b, priority = p\<rparr> # new"
  have "ps = procs @ ?new" using new(1) by simp
  moreover have "map pid ?new = map row_pid (tr # rows)" using new(2) by simp
  moreover have "distinct (map row_pid (tr # rows))" using new(3,4) by auto
  moreover have "set (map row_pid (tr # rows)) \<inter> seen = {}" using new(4) ok(1) by auto
  moreover have "\<forall>p\<in>set ?new. 0 \<le> arrival p \<and> 0 < burst p" using new(5) ok by simp
  ultimately show ?case by blast
qed

lemma readProcesses_Inr:
  assumes "readProcesses lc rows = Inr ps"
  shows "mset (map pid ps) = mset (map row_pid rows)" and "distinct (map row_pid rows)"
    and "\<forall>p\<in>set ps. 0 \<le> arrival p \<and> 0 < burst p" and "length ps = length rows"
proof -
  from assms obtain procs where r: "read_rows rows {} [] = Inr procs" and ps: "ps = sort_by (read_cmp lc) procs"
    by (auto simp: readProcesses_def split: sum.splits)
  from read_rows_Inr[OF r] have p: "map pid procs = map row_pid rows"
    and d: "distinct (map row_pid rows)"
    and v: "\<forall>p\<in>set procs. 0 \<le> arrival p \<and> 0 < burst p" by auto
  have m: "mset ps = mset procs" by (simp add: ps mset_sort_by)
  then have "mset (map pid ps) = mset (map pid procs)" by (metis mset_map)
  then show "mset (map pid ps) = mset (map row_pid rows)" by (simp add: p)
  show "distinct (map row_pid rows)" by (rule d)
  show "\<forall>p\<in>set ps. 0 \<le> arrival p \<and> 0 < burst p" using v mset_eq_setD[OF m] by simp
  show "length ps = length rows" using mset_eq_length[OF m] p by (metis length_map)
qed

lemma readProcesses_valid:
  assumes "readProcesses lc rows = Inr ps" "ps \<noteq> []"
  shows "valid ps" and "pid ` set ps = set (map row_pid rows)"
proof -
  note r = readProcesses_Inr[OF assms(1)]
  have "distinct (map pid ps)" using mset_eq_imp_distinct_iff[OF r(1)] r(2) by simp
  then show "valid ps" using r(3) assms(2) by (simp add: valid_def)
  show "pid ` set ps = set (map row_pid rows)" using mset_eq_setD[OF r(1)] by simp
qed

text \<open>
  C9, as the specification states it, fails: the five scheduling functions validate
  nothing. On the empty list each returns the empty result with endTime \<open>Infinity\<close>, and
  on two processes that share the pid P1, FCFS returns two blocks and a results map
  with the single entry of the second process.
\<close>

theorem engine_does_not_validate:
  "fcfs [] = empty_result PosInf
   \<and> sjf by_code_units [] = Some (empty_result PosInf)
   \<and> srtf by_code_units [] = Some (Inr (empty_result PosInf))
   \<and> prioritySchedule by_code_units [] = Some (empty_result PosInf)
   \<and> roundRobin [] (Num 1) = Some (Inr (empty_result PosInf))
   \<and> blocks (fcfs dup_input) =
       [\<lparr>b_pid = ''P1'', b_start = 0, b_end = 2\<rparr>, \<lparr>b_pid = ''P1'', b_start = 2, b_end = 5\<rparr>]
   \<and> results (fcfs dup_input) = [''P1'' \<mapsto> full_result (dup_input ! 1) 2 5]"
  by (simp add: fcfs_def sjf_def prioritySchedule_def np_schedule_def srtf_def roundRobin_def
      dup_input_def Let_def js_eval)

lemma compute_Inr:
  assumes c: "compute lc rows algo q = Some (Inr r)" and rp: "readProcesses lc rows = Inr ps"
  shows "r = fcfs ps \<or> sjf lc ps = Some r \<or> srtf lc ps = Some (Inr r)
         \<or> prioritySchedule lc ps = Some r \<or> roundRobin ps q = Some (Inr r)"
proof -
  have ne: "ps \<noteq> []" using c rp by (cases "ps = []") (simp_all add: compute_def)
  show ?thesis
  proof (cases "algo = ''FCFS''")
    case True
    with c rp ne show ?thesis by (simp add: compute_def)
  next
    case n1: False
    show ?thesis
    proof (cases "algo = ''SJF''")
      case True
      with c rp ne show ?thesis by (auto simp add: compute_def)
    next
      case n2: False
      show ?thesis
      proof (cases "algo = ''SRTF''")
        case True
        with c rp ne show ?thesis by (simp add: compute_def)
      next
        case n3: False
        show ?thesis
        proof (cases "algo = ''PR''")
          case True
          with c rp ne show ?thesis by (auto simp add: compute_def)
        next
          case n4: False
          show ?thesis
          proof (cases "algo = ''RR''")
            case True
            with c rp ne show ?thesis by (simp add: compute_def)
          next
            case False
            with c rp ne n1 n2 n3 n4 show ?thesis by (simp add: compute_def)
          qed
        qed
      qed
    qed
  qed
qed

text \<open>
  C9, amended. The scheduling functions are reached through \<open>compute\<close> only, and the
  rejection happens there: for every table that is empty or holds two rows with the same
  pid, \<open>compute\<close> reports an error (raised by \<open>readProcesses\<close>, or its own "Add at least
  one process.") and calls no algorithm; and whenever \<open>compute\<close> hands a result to the
  renderers, the table was not empty, its pids are unique, and the results map has
  exactly one entry per row.
\<close>

theorem compute_validates_input:
  "(rows = [] \<or> \<not> distinct (map row_pid rows) \<longrightarrow> (\<exists>e. compute lc rows algo q = Some (Inl e)))
   \<and> (compute lc rows algo q = Some (Inr r) \<longrightarrow>
        rows \<noteq> [] \<and> distinct (map row_pid rows)
        \<and> dom (results r) = set (map row_pid rows)
        \<and> card (dom (results r)) = length rows)"
proof (intro conjI impI)
  assume bad: "rows = [] \<or> \<not> distinct (map row_pid rows)"
  show "\<exists>e. compute lc rows algo q = Some (Inl e)"
  proof (cases "readProcesses lc rows")
    case (Inl e)
    then show ?thesis by (simp add: compute_def)
  next
    case (Inr ps)
    from readProcesses_Inr[OF Inr] bad have "ps = []" by auto
    with Inr show ?thesis by (simp add: compute_def)
  qed
next
  assume c: "compute lc rows algo q = Some (Inr r)"
  then obtain ps where rp: "readProcesses lc rows = Inr ps"
    by (cases "readProcesses lc rows") (simp_all add: compute_def)
  have ne: "ps \<noteq> []" using c rp by (cases "ps = []") (simp_all add: compute_def)
  note v = readProcesses_valid[OF rp ne]
  note r = readProcesses_Inr[OF rp]
  have dm: "dom (results r) = pid ` set ps"
  proof -
    from compute_Inr[OF c rp] consider
      (fcfs) "r = fcfs ps" | (sjf) "sjf lc ps = Some r" | (srtf) "srtf lc ps = Some (Inr r)"
      | (pr) "prioritySchedule lc ps = Some r" | (rr) "roundRobin ps q = Some (Inr r)"
      by blast
    then show ?thesis
    proof cases
      case fcfs
      then show ?thesis by (simp add: fcfs_dom)
    next
      case sjf
      with np_schedule_sound[of "sjf_cmp lc" ps] show ?thesis by (auto simp: sjf_def)
    next
      case srtf
      from srtf_sound[OF this] show ?thesis by simp
    next
      case pr
      with np_schedule_sound[of "priority_cmp lc" ps] show ?thesis
        by (auto simp: prioritySchedule_def)
    next
      case rr
      then have "js_gt0 q" by (auto simp: roundRobin_def split: if_splits)
      from roundRobin_sound[OF rr this] show ?thesis by simp
    qed
  qed
  have ne': "rows \<noteq> []" using r(4) ne by auto
  have d: "dom (results r) = set (map row_pid rows)" using dm v(2) by simp
  have "card (set (map row_pid rows)) = length rows" using distinct_card[OF r(2)] by simp
  then show "card (dom (results r)) = length rows" by (simp add: d)
  show "rows \<noteq> []" by (rule ne')
  show "distinct (map row_pid rows)" by (rule r(2))
  show "dom (results r) = set (map row_pid rows)" by (rule d)
qed

lemma compute_tie_rows: "compute lc tie_rows ''FCFS'' (Num 1) = Some (Inr (fcfs tie_input))"
  by (simp add: compute_def tie_read) (simp add: tie_input_def)

theorem compute_validates_input_witness:
  "(\<exists>e. compute by_code_units [] ''FCFS'' (Num 1) = Some (Inl e))
   \<and> \<not> distinct (map row_pid dup_rows)
   \<and> (\<exists>e. compute by_code_units dup_rows ''FCFS'' (Num 1) = Some (Inl e))
   \<and> compute by_code_units tie_rows ''FCFS'' (Num 1) = Some (Inr (fcfs tie_input))
   \<and> tie_rows \<noteq> [] \<and> distinct (map row_pid tie_rows)
   \<and> dom (results (fcfs tie_input)) = set (map row_pid tie_rows)
   \<and> card (dom (results (fcfs tie_input))) = length tie_rows"
proof -
  have d: "\<not> distinct (map row_pid dup_rows)" by (simp add: dup_rows_def)
  from compute_validates_input[of "[]" by_code_units "''FCFS''" "Num 1"]
  have a: "\<exists>e. compute by_code_units [] ''FCFS'' (Num 1) = Some (Inl e)" by simp
  from compute_validates_input[of dup_rows by_code_units "''FCFS''" "Num 1"] d
  have b: "\<exists>e. compute by_code_units dup_rows ''FCFS'' (Num 1) = Some (Inl e)" by simp
  from compute_validates_input[of tie_rows by_code_units "''FCFS''" "Num 1" "fcfs tie_input"]
    compute_tie_rows[of by_code_units]
  have c: "tie_rows \<noteq> [] \<and> distinct (map row_pid tie_rows)
   \<and> dom (results (fcfs tie_input)) = set (map row_pid tie_rows)
   \<and> card (dom (results (fcfs tie_input))) = length tie_rows" by blast
  from a b c d compute_tie_rows[of by_code_units] show ?thesis by blast
qed

section \<open>Comparators and sorting\<close>

lemma by_code_units_eq0: "by_code_units a b = 0 \<longleftrightarrow> a = b"
  by (induction a b rule: by_code_units.induct) auto

lemma by_code_units_flip: "by_code_units b a = - by_code_units a b"
  by (induction a b rule: by_code_units.induct) auto

lemma by_code_units_trans:
  "by_code_units a b \<le> 0 \<Longrightarrow> by_code_units b c \<le> 0 \<Longrightarrow> by_code_units a c \<le> 0"
proof (induction a arbitrary: b c)
  case Nil
  then show ?case by (cases c) auto
next
  case (Cons x a)
  show ?case
  proof (cases b)
    case Nil
    with Cons.prems show ?thesis by simp
  next
    case b: (Cons y b')
    show ?thesis
    proof (cases c)
      case Nil
      with Cons.prems b show ?thesis by simp
    next
      case c: (Cons z c')
      show ?thesis
      proof (cases "(of_char x :: nat) < of_char z")
        case True
        then show ?thesis by (simp add: c)
      next
        case False
        from Cons.prems b c have xy: "(of_char x :: nat) \<le> of_char y" and yz: "(of_char y :: nat) \<le> of_char z"
          by (auto split: if_splits)
        with False have "(of_char x :: nat) = of_char y" "(of_char y :: nat) = of_char z"
          by linarith+
        then have e: "x = y" "y = z" by simp_all
        with Cons.prems b c have "by_code_units a b' \<le> 0" "by_code_units b' c' \<le> 0"
          by (auto split: if_splits)
        from Cons.IH[OF this] e show ?thesis by (simp add: c)
      qed
    qed
  qed
qed

lemma total_preorder_code_units: "total_preorder by_code_units"
  unfolding total_preorder_def
proof (intro conjI allI impI)
  fix x y show "(by_code_units x y < 0) = (0 < by_code_units y x)"
    using by_code_units_flip[of y x] by simp
next
  fix x y z assume "by_code_units x y \<le> 0" "by_code_units y z \<le> 0"
  then show "by_code_units x z \<le> 0" by (rule by_code_units_trans)
qed

lemma separates_code_units: "separates by_code_units S"
  unfolding separates_def
proof (intro ballI impI)
  fix x y assume "by_code_units x y \<le> 0" "by_code_units y x \<le> 0"
  with by_code_units_flip[of y x] have "by_code_units x y = 0" by simp
  then show "x = y" by (simp add: by_code_units_eq0)
qed

lemma total_preorder_total: "total_preorder lc \<Longrightarrow> lc x y \<le> 0 \<or> lc y x \<le> 0"
proof -
  assume t: "total_preorder lc"
  then have "(lc y x < 0) = (0 < lc x y)" by (simp add: total_preorder_def)
  then show ?thesis by linarith
qed

lemma total_preorder_trans: "total_preorder lc \<Longrightarrow> lc x y \<le> 0 \<Longrightarrow> lc y z \<le> 0 \<Longrightarrow> lc x z \<le> 0"
  unfolding total_preorder_def by blast

lemma read_cmp_le:
  "read_cmp lc a b \<le> 0 \<longleftrightarrow>
     arrival a < arrival b \<or> (arrival a = arrival b \<and> lc (pid a) (pid b) \<le> 0)"
  by (auto simp: read_cmp_def js_or_def js_sub_sign)

lemma sjf_cmp_le:
  "sjf_cmp lc a b \<le> 0 \<longleftrightarrow>
     burst a < burst b \<or> (burst a = burst b \<and>
       (arrival a < arrival b \<or> (arrival a = arrival b \<and> lc (pid a) (pid b) \<le> 0)))"
  by (auto simp: sjf_cmp_def js_or_def js_sub_sign)

lemma priority_cmp_le:
  "priority_cmp lc a b \<le> 0 \<longleftrightarrow>
     priority a < priority b \<or> (priority a = priority b \<and>
       (arrival a < arrival b \<or> (arrival a = arrival b \<and> lc (pid a) (pid b) \<le> 0)))"
  by (auto simp: priority_cmp_def js_or_def js_sub_sign)

lemma read_cmp_total: "total_preorder lc \<Longrightarrow> read_cmp lc a b \<le> 0 \<or> read_cmp lc b a \<le> 0"
  unfolding read_cmp_le using total_preorder_total[of lc "pid a" "pid b"]
  by (cases "arrival a" "arrival b" rule: linorder_cases) auto

lemma read_cmp_trans:
  "total_preorder lc \<Longrightarrow> read_cmp lc a b \<le> 0 \<Longrightarrow> read_cmp lc b c \<le> 0 \<Longrightarrow> read_cmp lc a c \<le> 0"
  unfolding read_cmp_le using total_preorder_trans[of lc "pid a" "pid b" "pid c"] by auto

lemma read_cmp_antisym:
  "read_cmp lc a b \<le> 0 \<Longrightarrow> read_cmp lc b a \<le> 0 \<Longrightarrow>
     lc (pid a) (pid b) \<le> 0 \<and> lc (pid b) (pid a) \<le> 0"
  unfolding read_cmp_le by auto

lemma sjf_cmp_total: "total_preorder lc \<Longrightarrow> sjf_cmp lc a b \<le> 0 \<or> sjf_cmp lc b a \<le> 0"
  unfolding sjf_cmp_le using total_preorder_total[of lc "pid a" "pid b"]
  by (cases "burst a" "burst b" rule: linorder_cases;
      cases "arrival a" "arrival b" rule: linorder_cases) auto

lemma sjf_cmp_trans:
  "total_preorder lc \<Longrightarrow> sjf_cmp lc a b \<le> 0 \<Longrightarrow> sjf_cmp lc b c \<le> 0 \<Longrightarrow> sjf_cmp lc a c \<le> 0"
  unfolding sjf_cmp_le using total_preorder_trans[of lc "pid a" "pid b" "pid c"] by auto

lemma sjf_cmp_antisym:
  "sjf_cmp lc a b \<le> 0 \<Longrightarrow> sjf_cmp lc b a \<le> 0 \<Longrightarrow>
     lc (pid a) (pid b) \<le> 0 \<and> lc (pid b) (pid a) \<le> 0"
  unfolding sjf_cmp_le by auto

lemma priority_cmp_total:
  "total_preorder lc \<Longrightarrow> priority_cmp lc a b \<le> 0 \<or> priority_cmp lc b a \<le> 0"
  unfolding priority_cmp_le using total_preorder_total[of lc "pid a" "pid b"]
  by (cases "priority a" "priority b" rule: linorder_cases;
      cases "arrival a" "arrival b" rule: linorder_cases) auto

lemma priority_cmp_trans:
  "total_preorder lc \<Longrightarrow> priority_cmp lc a b \<le> 0 \<Longrightarrow> priority_cmp lc b c \<le> 0 \<Longrightarrow>
     priority_cmp lc a c \<le> 0"
  unfolding priority_cmp_le using total_preorder_trans[of lc "pid a" "pid b" "pid c"] by auto

lemma priority_cmp_antisym:
  "priority_cmp lc a b \<le> 0 \<Longrightarrow> priority_cmp lc b a \<le> 0 \<Longrightarrow>
     lc (pid a) (pid b) \<le> 0 \<and> lc (pid b) (pid a) \<le> 0"
  unfolding priority_cmp_le by auto

lemma same_pid_same_process:
  assumes "distinct (map pid ps)" "a \<in> set ps" "b \<in> set ps" "pid a = pid b"
  shows "a = b"
  using assms by (meson distinct_map inj_onD)

lemma separated_processes:
  assumes "distinct (map pid ps)" "separates lc (pid ` set ps)" "a \<in> set ps" "b \<in> set ps"
    and "lc (pid a) (pid b) \<le> 0 \<and> lc (pid b) (pid a) \<le> 0"
  shows "a = b"
proof -
  from assms(2-5) have "pid a = pid b" unfolding separates_def by blast
  from same_pid_same_process[OF assms(1,3,4) this] show ?thesis .
qed

lemma set_insert_by: "set (insert_by c x xs) = insert x (set xs)"
  by (induction xs) auto

lemma sorted_insert_by:
  assumes tot: "\<And>a b. c a b \<le> 0 \<or> c b a \<le> 0"
    and tr: "\<And>a b d. c a b \<le> 0 \<Longrightarrow> c b d \<le> 0 \<Longrightarrow> c a d \<le> 0"
  shows "sorted_wrt (\<lambda>a b. c a b \<le> 0) xs \<Longrightarrow> sorted_wrt (\<lambda>a b. c a b \<le> 0) (insert_by c x xs)"
proof (induction xs)
  case Nil
  then show ?case by simp
next
  case (Cons y ys)
  show ?case
  proof (cases "c x y \<le> 0")
    case True
    then have "\<forall>z\<in>set ys. c x z \<le> 0" using Cons.prems tr by auto
    with True Cons.prems show ?thesis by simp
  next
    case False
    then have "c y x \<le> 0" using tot[of x y] by simp
    with False Cons show ?thesis by (simp add: set_insert_by)
  qed
qed

lemma sorted_sort_by:
  assumes tot: "\<And>a b. c a b \<le> 0 \<or> c b a \<le> 0"
    and tr: "\<And>a b d. c a b \<le> 0 \<Longrightarrow> c b d \<le> 0 \<Longrightarrow> c a d \<le> 0"
  shows "sorted_wrt (\<lambda>a b. c a b \<le> 0) (sort_by c xs)"
  unfolding sort_by_def by (induction xs) (simp_all add: sorted_insert_by[OF tot tr])

lemma sorted_wrt_unique:
  assumes anti: "\<And>a b. a \<in> set xs \<Longrightarrow> b \<in> set xs \<Longrightarrow> R a b \<Longrightarrow> R b a \<Longrightarrow> a = b"
  shows "sorted_wrt R xs \<Longrightarrow> sorted_wrt R ys \<Longrightarrow> mset xs = mset ys \<Longrightarrow> xs = ys"
  using anti
proof (induction xs arbitrary: ys)
  case Nil
  then show ?case by simp
next
  case (Cons x xs)
  from Cons.prems(3) obtain y ys' where ys: "ys = y # ys'" by (cases ys) auto
  have sets: "set (x # xs) = set (y # ys')" using Cons.prems(3) ys by (metis mset_eq_setD)
  have "x = y"
  proof (rule ccontr)
    assume ne: "x \<noteq> y"
    with sets have "x \<in> set ys'" "y \<in> set xs" by auto
    then have "R y x" "R x y" using Cons.prems(1,2) ys by auto
    moreover have "x \<in> set (x # xs)" "y \<in> set (x # xs)" using \<open>y \<in> set xs\<close> by simp_all
    ultimately have "x = y" using Cons.prems(4) by blast
    with ne show False by simp
  qed
  with Cons.prems(3) ys have m: "mset xs = mset ys'" by simp
  have "xs = ys'"
  proof (rule Cons.IH)
    show "sorted_wrt R xs" using Cons.prems(1) by simp
    show "sorted_wrt R ys'" using Cons.prems(2) ys by simp
    show "mset xs = mset ys'" by (rule m)
    show "\<And>a b. a \<in> set xs \<Longrightarrow> b \<in> set xs \<Longrightarrow> R a b \<Longrightarrow> R b a \<Longrightarrow> a = b"
      using Cons.prems(4) by simp
  qed
  with \<open>x = y\<close> ys show ?case by simp
qed

text \<open>
  A comparator that is a total order on the elements sorts every arrangement of them
  into the same list.
\<close>

lemma sort_by_unique:
  assumes tot: "\<And>a b. c a b \<le> 0 \<or> c b a \<le> 0"
    and tr: "\<And>a b d. c a b \<le> 0 \<Longrightarrow> c b d \<le> 0 \<Longrightarrow> c a d \<le> 0"
    and anti: "\<And>a b. a \<in> set xs \<Longrightarrow> b \<in> set xs \<Longrightarrow> c a b \<le> 0 \<Longrightarrow> c b a \<le> 0 \<Longrightarrow> a = b"
    and m: "mset ys = mset xs"
  shows "sort_by c ys = sort_by c xs"
proof (rule sorted_wrt_unique[where R = "\<lambda>a b. c a b \<le> 0"])
  show "sorted_wrt (\<lambda>a b. c a b \<le> 0) (sort_by c ys)" by (rule sorted_sort_by[OF tot tr])
  show "sorted_wrt (\<lambda>a b. c a b \<le> 0) (sort_by c xs)" by (rule sorted_sort_by[OF tot tr])
  show "mset (sort_by c ys) = mset (sort_by c xs)" using m by (simp add: mset_sort_by)
  fix a b
  assume "a \<in> set (sort_by c ys)" "b \<in> set (sort_by c ys)" and ab: "c a b \<le> 0" "c b a \<le> 0"
  then have "a \<in> set xs" "b \<in> set xs" using mset_eq_setD[OF m] by (simp_all add: set_sort_by)
  then show "a = b" using ab by (rule anti)
qed

lemma read_sort_unique:
  assumes d: "distinct (map pid ps)" and m: "mset ps' = mset ps"
    and t: "total_preorder lc" and sp: "separates lc (pid ` set ps)"
  shows "sort_by (read_cmp lc) ps' = sort_by (read_cmp lc) ps"
proof (rule sort_by_unique[OF _ _ _ m])
  show "read_cmp lc a b \<le> 0 \<or> read_cmp lc b a \<le> 0" for a b by (rule read_cmp_total[OF t])
  show "read_cmp lc a b \<le> 0 \<Longrightarrow> read_cmp lc b e \<le> 0 \<Longrightarrow> read_cmp lc a e \<le> 0" for a b e
    by (rule read_cmp_trans[OF t])
  show "a \<in> set ps \<Longrightarrow> b \<in> set ps \<Longrightarrow> read_cmp lc a b \<le> 0 \<Longrightarrow> read_cmp lc b a \<le> 0 \<Longrightarrow> a = b"
    for a b
    using separated_processes[OF d sp] read_cmp_antisym[of lc a b] by blast
qed

text \<open>The list that \<open>readProcesses\<close> returns is sorted by arrival.\<close>

lemma sort_by_arrival:
  assumes t: "total_preorder lc"
  shows "sorted (map arrival (sort_by (read_cmp lc) ps))"
proof -
  have "sorted_wrt (\<lambda>a b. read_cmp lc a b \<le> 0) (sort_by (read_cmp lc) ps)"
    by (rule sorted_sort_by[OF read_cmp_total[OF t] read_cmp_trans[OF t]])
  then have "sorted_wrt (\<lambda>a b. arrival a \<le> arrival b) (sort_by (read_cmp lc) ps)"
    by (rule sorted_wrt_mono_rel[rotated]) (auto simp: read_cmp_le)
  then show ?thesis by (simp add: sorted_map)
qed

lemma readProcesses_sorted:
  assumes "total_preorder lc" "readProcesses lc rows = Inr ps"
  shows "sorted (map arrival ps)"
  using assms(2) sort_by_arrival[OF assms(1)]
  by (auto simp: readProcesses_def split: sum.splits)

lemma map_insert_by:
  "map f (insert_by (\<lambda>a b. c (f a) (f b)) x xs) = insert_by c (f x) (map f xs)"
  by (induction xs) simp_all

lemma map_sort_by: "map f (sort_by (\<lambda>a b. c (f a) (f b)) xs) = sort_by c (map f xs)"
  unfolding sort_by_def by (induction xs) (simp_all add: map_insert_by)

lemma Math_min_set: "Math_min xs = (if xs = [] then PosInf else Num (Min (set xs)))"
proof (cases xs)
  case Nil
  then show ?thesis by simp
next
  case (Cons x ys)
  have "Min (set (x # ys)) = fold min ys x" by (rule Min.set_eq_fold)
  then show ?thesis using Cons by simp
qed

lemma Math_min_perm: "mset xs = mset ys \<Longrightarrow> Math_min xs = Math_min ys"
proof -
  assume m: "mset xs = mset ys"
  then have "set xs = set ys" by (rule mset_eq_setD)
  moreover from m have "xs = [] \<longleftrightarrow> ys = []" by (metis mset_zero_iff)
  ultimately show ?thesis by (simp add: Math_min_set)
qed

section \<open>SJF and Priority do not depend on the order of the list\<close>

lemma nth_image_mem:
  assumes d: "distinct ps" and u: "U \<subseteq> {0..<length ps}" and i: "i < length ps"
  shows "ps ! i \<in> nth ps ` U \<longleftrightarrow> i \<in> U"
proof
  assume "ps ! i \<in> nth ps ` U"
  then obtain j where j: "j \<in> U" "ps ! i = ps ! j" by blast
  with u have "j < length ps" by auto
  with d i j(2) have "i = j" by (simp add: nth_eq_iff_index_eq)
  with j(1) show "i \<in> U" by simp
qed simp

lemma map_nth_filter:
  assumes d: "distinct ps" and u: "U \<subseteq> {0..<length ps}"
  shows "map (nth ps) (filter (\<lambda>i. i \<notin> U \<and> A (ps ! i)) [0..<length ps]) =
         filter (\<lambda>p. p \<notin> nth ps ` U \<and> A p) ps"
proof -
  let ?Q = "\<lambda>p. p \<notin> nth ps ` U \<and> A p"
  have e: "filter (?Q \<circ> nth ps) [0..<length ps] = filter (\<lambda>i. i \<notin> U \<and> A (ps ! i)) [0..<length ps]"
    by (rule filter_cong[OF refl]) (simp add: nth_image_mem[OF d u])
  have "filter ?Q ps = filter ?Q (map (nth ps) [0..<length ps])" by (simp only: map_nth)
  also have "\<dots> = map (nth ps) (filter (?Q \<circ> nth ps) [0..<length ps])" by (rule filter_map)
  finally show ?thesis by (simp only: e)
qed

lemma nth_image_Collect:
  "nth ps ` {i. i < length ps \<and> A (ps ! i)} = {p \<in> set ps. A p}"
  by (auto simp: in_set_conv_nth)

lemma np_same_admit:
  assumes d: "distinct ps" and d': "distinct ps'" and m: "mset ps' = mset ps"
    and R: "np_same ps ps' s s'"
  shows "np_same ps ps' (np_admit ps s) (np_admit ps' s')"
proof -
  from R have t: "np_time s' = np_time s" and u: "np_used s \<subseteq> {0..<length ps}"
    and u': "np_used s' \<subseteq> {0..<length ps'}" and U: "nth ps ` np_used s = nth ps' ` np_used s'"
    and r: "set (np_ready s) \<subseteq> {0..<length ps}" and r': "set (np_ready s') \<subseteq> {0..<length ps'}"
    and mr: "mset (map (nth ps) (np_ready s)) = mset (map (nth ps') (np_ready s'))"
    and rest: "np_completed s' = np_completed s" "np_blocks s' = np_blocks s" "np_res s' = np_res s"
    by (simp_all add: np_same_def)
  let ?A = "\<lambda>p. arrival p \<le> np_time s"
  let ?Q = "\<lambda>p. p \<notin> nth ps ` np_used s \<and> ?A p"
  have st: "set ps' = set ps" using m by (rule mset_eq_setD)
  have n1: "map (nth ps) (filter (\<lambda>i. i \<notin> np_used s \<and> arrival (ps ! i) \<le> np_time s) [0..<length ps])
            = filter ?Q ps"
    by (rule map_nth_filter[OF d u])
  have n2: "map (nth ps') (filter (\<lambda>i. i \<notin> np_used s' \<and> arrival (ps' ! i) \<le> np_time s) [0..<length ps'])
            = filter ?Q ps'"
    using map_nth_filter[OF d' u', of ?A] by (simp only: U)
  have mq: "mset (filter ?Q ps') = mset (filter ?Q ps)" by (simp only: mset_filter m)
  have i1: "nth ps ` {i. i < length ps \<and> arrival (ps ! i) \<le> np_time s} = {p \<in> set ps. ?A p}"
    by (rule nth_image_Collect)
  have i2: "nth ps' ` {i. i < length ps' \<and> arrival (ps' ! i) \<le> np_time s} = {p \<in> set ps. ?A p}"
    using nth_image_Collect[of ps' ?A] by (simp only: st)
  show ?thesis
    unfolding np_same_def np_admit_simps t
  proof (intro conjI)
    show "mset (map (nth ps) (np_ready s @
            filter (\<lambda>i. i \<notin> np_used s \<and> arrival (ps ! i) \<le> np_time s) [0..<length ps])) =
          mset (map (nth ps') (np_ready s' @
            filter (\<lambda>i. i \<notin> np_used s' \<and> arrival (ps' ! i) \<le> np_time s) [0..<length ps']))"
      by (simp only: map_append mset_append n1 n2 mq mr)
    show "nth ps ` (np_used s \<union> {i. i < length ps \<and> arrival (ps ! i) \<le> np_time s}) =
          nth ps' ` (np_used s' \<union> {i. i < length ps' \<and> arrival (ps' ! i) \<le> np_time s})"
      by (simp only: image_Un i1 i2 U)
    show "np_used s \<union> {i. i < length ps \<and> arrival (ps ! i) \<le> np_time s} \<subseteq> {0..<length ps}"
      using u by auto
    show "np_used s' \<union> {i. i < length ps' \<and> arrival (ps' ! i) \<le> np_time s} \<subseteq> {0..<length ps'}"
      using u' by auto
    show "set (np_ready s @ filter (\<lambda>i. i \<notin> np_used s \<and> arrival (ps ! i) \<le> np_time s)
            [0..<length ps]) \<subseteq> {0..<length ps}"
      using r by auto
    show "set (np_ready s' @ filter (\<lambda>i. i \<notin> np_used s' \<and> arrival (ps' ! i) \<le> np_time s)
            [0..<length ps']) \<subseteq> {0..<length ps'}"
      using r' by auto
  qed (simp_all add: rest)
qed

lemma np_same_empty: "np_same ps ps' s s' \<Longrightarrow> np_ready s = [] \<longleftrightarrow> np_ready s' = []"
proof -
  assume "np_same ps ps' s s'"
  then have "mset (map (nth ps) (np_ready s)) = mset (map (nth ps') (np_ready s'))"
    by (simp add: np_same_def)
  then have "length (map (nth ps) (np_ready s)) = length (map (nth ps') (np_ready s'))"
    by (rule mset_eq_length)
  then have "length (np_ready s) = length (np_ready s')" by simp
  then show ?thesis by (metis length_0_conv)
qed

lemma np_same_next:
  assumes d: "distinct ps" and d': "distinct ps'" and m: "mset ps' = mset ps"
    and R: "np_same ps ps' s s'"
  shows "Math_min (map (\<lambda>i. arrival (ps' ! i)) (filter (\<lambda>i. i \<notin> np_used s') [0..<length ps'])) =
         Math_min (map (\<lambda>i. arrival (ps ! i)) (filter (\<lambda>i. i \<notin> np_used s) [0..<length ps]))"
proof -
  from R have u: "np_used s \<subseteq> {0..<length ps}" and u': "np_used s' \<subseteq> {0..<length ps'}"
    and U: "nth ps ` np_used s = nth ps' ` np_used s'"
    by (simp_all add: np_same_def)
  let ?Q = "\<lambda>p. p \<notin> nth ps ` np_used s \<and> True"
  have n1: "map (nth ps) (filter (\<lambda>i. i \<notin> np_used s \<and> True) [0..<length ps]) = filter ?Q ps"
    by (rule map_nth_filter[OF d u])
  have n2: "map (nth ps') (filter (\<lambda>i. i \<notin> np_used s' \<and> True) [0..<length ps']) = filter ?Q ps'"
    using map_nth_filter[OF d' u', of "\<lambda>p. True"] by (simp only: U)
  have a1: "map (\<lambda>i. arrival (ps ! i)) (filter (\<lambda>i. i \<notin> np_used s) [0..<length ps]) =
            map arrival (filter ?Q ps)"
    using arg_cong[OF n1, of "map arrival"] by (simp add: comp_def)
  have a2: "map (\<lambda>i. arrival (ps' ! i)) (filter (\<lambda>i. i \<notin> np_used s') [0..<length ps']) =
            map arrival (filter ?Q ps')"
    using arg_cong[OF n2, of "map arrival"] by (simp add: comp_def)
  have "mset (map arrival (filter ?Q ps')) = mset (map arrival (filter ?Q ps))"
    by (simp only: mset_map mset_filter m)
  then show ?thesis unfolding a1 a2 by (rule Math_min_perm)
qed

lemma np_same_idle: "np_same ps ps' s s' \<Longrightarrow> np_same ps ps' (np_idle nxt s) (np_idle nxt s')"
  by (simp add: np_same_def np_idle_def)

lemma np_same_run:
  assumes tot: "\<forall>a b. cmp a b \<le> 0 \<or> cmp b a \<le> 0"
    and tr: "\<forall>a b e. cmp a b \<le> 0 \<longrightarrow> cmp b e \<le> 0 \<longrightarrow> cmp a e \<le> 0"
    and anti: "\<forall>a\<in>set ps. \<forall>b\<in>set ps. cmp a b \<le> 0 \<longrightarrow> cmp b a \<le> 0 \<longrightarrow> a = b"
    and R: "np_same ps ps' s s'" and ne: "np_ready s \<noteq> []"
  shows "np_same ps ps' (np_run cmp ps s) (np_run cmp ps' s')"
proof -
  from R have r: "set (np_ready s) \<subseteq> {0..<length ps}" and r': "set (np_ready s') \<subseteq> {0..<length ps'}"
    and mr: "mset (map (nth ps) (np_ready s)) = mset (map (nth ps') (np_ready s'))"
    and rest: "np_time s' = np_time s" "np_completed s' = np_completed s"
      "np_blocks s' = np_blocks s" "np_res s' = np_res s"
      "np_used s \<subseteq> {0..<length ps}" "np_used s' \<subseteq> {0..<length ps'}"
      "nth ps ` np_used s = nth ps' ` np_used s'"
    by (simp_all add: np_same_def)
  from ne np_same_empty[OF R] have ne': "np_ready s' \<noteq> []" by simp
  define sr where "sr = sort_by (\<lambda>ia ib. cmp (ps ! ia) (ps ! ib)) (np_ready s)"
  define sr' where "sr' = sort_by (\<lambda>ia ib. cmp (ps' ! ia) (ps' ! ib)) (np_ready s')"
  have m1: "map (nth ps) sr = sort_by cmp (map (nth ps) (np_ready s))"
    unfolding sr_def by (rule map_sort_by)
  have m2: "map (nth ps') sr' = sort_by cmp (map (nth ps') (np_ready s'))"
    unfolding sr'_def by (rule map_sort_by)
  have sub: "set (map (nth ps) (np_ready s)) \<subseteq> set ps" using r by auto
  have "sort_by cmp (map (nth ps') (np_ready s')) = sort_by cmp (map (nth ps) (np_ready s))"
  proof (rule sort_by_unique[OF _ _ _ mr[symmetric]])
    show "cmp a b \<le> 0 \<or> cmp b a \<le> 0" for a b using tot by blast
    show "cmp a b \<le> 0 \<Longrightarrow> cmp b e \<le> 0 \<Longrightarrow> cmp a e \<le> 0" for a b e using tr by blast
    fix a b
    assume "a \<in> set (map (nth ps) (np_ready s))" "b \<in> set (map (nth ps) (np_ready s))"
      and ab: "cmp a b \<le> 0" "cmp b a \<le> 0"
    with sub have "a \<in> set ps" "b \<in> set ps" by blast+
    then show "a = b" using ab anti by blast
  qed
  with m1 m2 have L: "map (nth ps') sr' = map (nth ps) sr" by simp
  have s1: "set sr = set (np_ready s)" "set sr' = set (np_ready s')"
    by (simp_all add: sr_def sr'_def set_sort_by)
  with ne ne' have n: "sr \<noteq> []" "sr' \<noteq> []" by auto
  have h: "ps' ! hd sr' = ps ! hd sr"
    using arg_cong[OF L, of hd] n by (simp add: hd_map)
  have tl: "map (nth ps') (tl sr') = map (nth ps) (tl sr)"
    using arg_cong[OF L, of tl] by (simp add: map_tl)
  have t1: "set (tl sr) \<subseteq> {0..<length ps}" using r s1(1) n(1) by (auto dest: list.set_sel(2))
  have t2: "set (tl sr') \<subseteq> {0..<length ps'}" using r' s1(2) n(2) by (auto dest: list.set_sel(2))
  show ?thesis
    unfolding np_same_def np_run_def Let_def sr_def[symmetric] sr'_def[symmetric]
    using rest h tl t1 t2 by simp
qed

lemma np_loop_same:
  assumes tot: "\<forall>a b. cmp a b \<le> 0 \<or> cmp b a \<le> 0"
    and tr: "\<forall>a b e. cmp a b \<le> 0 \<longrightarrow> cmp b e \<le> 0 \<longrightarrow> cmp a e \<le> 0"
    and anti: "\<forall>a\<in>set ps. \<forall>b\<in>set ps. cmp a b \<le> 0 \<longrightarrow> cmp b a \<le> 0 \<longrightarrow> a = b"
    and d: "distinct ps" and d': "distinct ps'" and m: "mset ps' = mset ps"
    and run: "np_loop cmp ps s = Some t"
  shows "\<forall>s'. np_same ps ps' s s' \<longrightarrow>
           (\<exists>t'. np_loop cmp ps' s' = Some t' \<and> np_same ps ps' t t')"
proof -
  have len: "length ps' = length ps" using m by (rule mset_eq_length)
  have "cmp = cmp \<longrightarrow> ps = ps \<longrightarrow> (\<forall>s'. np_same ps ps' s s' \<longrightarrow>
           (\<exists>t'. np_loop cmp ps' s' = Some t' \<and> np_same ps ps' t t'))"
  proof (rule np_loop.raw_induct[OF _ run,
        where P = "\<lambda>c p s t. c = cmp \<longrightarrow> p = ps \<longrightarrow> (\<forall>s'. np_same ps ps' s s' \<longrightarrow>
           (\<exists>t'. np_loop cmp ps' s' = Some t' \<and> np_same ps ps' t t'))"])
    fix f :: "(process \<Rightarrow> process \<Rightarrow> real) \<Rightarrow> process list \<Rightarrow> np_state \<Rightarrow> np_state option"
      and c :: "process \<Rightarrow> process \<Rightarrow> real" and p :: "process list" and s t :: np_state
    assume IH: "\<And>c p s t. f c p s = Some t \<Longrightarrow>
        c = cmp \<longrightarrow> p = ps \<longrightarrow> (\<forall>s'. np_same ps ps' s s' \<longrightarrow>
           (\<exists>t'. np_loop cmp ps' s' = Some t' \<and> np_same ps ps' t t'))"
    assume eq: "(if np_completed s < length p
       then let s1 = np_admit p s
            in if np_ready s1 = []
               then case Math_min (map (\<lambda>i. arrival (p ! i))
                           (filter (\<lambda>i. i \<notin> np_used s1) [0..<length p])) of
                    Num next \<Rightarrow> f c p (np_idle next s1)
                    | other \<Rightarrow> Some s1
               else f c p (np_run c p s1)
       else Some s) = Some t"
    show "c = cmp \<longrightarrow> p = ps \<longrightarrow> (\<forall>s'. np_same ps ps' s s' \<longrightarrow>
           (\<exists>t'. np_loop cmp ps' s' = Some t' \<and> np_same ps ps' t t'))"
    proof (intro impI allI)
      fix s'
      assume c: "c = cmp" and p: "p = ps" and R: "np_same ps ps' s s'"
      from R have cs: "np_completed s' = np_completed s" by (simp add: np_same_def)
      show "\<exists>t'. np_loop cmp ps' s' = Some t' \<and> np_same ps ps' t t'"
      proof (cases "np_completed s < length ps")
        case False
        with eq p have "t = s" by simp
        moreover from False cs len have "np_loop cmp ps' s' = Some s'"
          by (subst np_loop.simps) simp
        ultimately show ?thesis using R by simp
      next
        case True
        let ?s1 = "np_admit ps s" and ?s1' = "np_admit ps' s'"
        have R1: "np_same ps ps' ?s1 ?s1'" by (rule np_same_admit[OF d d' m R])
        note em = np_same_empty[OF R1]
        show ?thesis
        proof (cases "np_ready ?s1 = []")
          case False
          with eq True c p have "f cmp ps (np_run cmp ps ?s1) = Some t" by (simp add: Let_def)
          from IH[OF this] np_same_run[OF tot tr anti R1 False]
          obtain t' where "np_loop cmp ps' (np_run cmp ps' ?s1') = Some t'" "np_same ps ps' t t'"
            by blast
          moreover from False em have "np_ready ?s1' \<noteq> []" by simp
          ultimately show ?thesis using True cs len
            by (subst np_loop.simps) (simp add: Let_def)
        next
          case empty: True
          with em have empty': "np_ready ?s1' = []" by simp
          note nx = np_same_next[OF d d' m R1]
          show ?thesis
          proof (cases "Math_min (map (\<lambda>i. arrival (ps ! i))
                           (filter (\<lambda>i. i \<notin> np_used ?s1) [0..<length ps]))")
            case (Num nxt)
            with eq True empty p c have "f cmp ps (np_idle nxt ?s1) = Some t"
              by (simp add: Let_def)
            from IH[OF this] np_same_idle[OF R1, of nxt]
            obtain t' where "np_loop cmp ps' (np_idle nxt ?s1') = Some t'" "np_same ps ps' t t'"
              by blast
            then show ?thesis using True cs len empty' nx Num
              by (subst np_loop.simps) (simp add: Let_def)
          next
            case PosInf
            with eq True empty p have "t = ?s1" by (simp add: Let_def)
            moreover have "np_loop cmp ps' s' = Some ?s1'" using True cs len empty' nx PosInf
              by (subst np_loop.simps) (simp add: Let_def)
            ultimately show ?thesis using R1 by simp
          next
            case NegInf
            with eq True empty p have "t = ?s1" by (simp add: Let_def)
            moreover have "np_loop cmp ps' s' = Some ?s1'" using True cs len empty' nx NegInf
              by (subst np_loop.simps) (simp add: Let_def)
            ultimately show ?thesis using R1 by simp
          next
            case NaN
            with eq True empty p have "t = ?s1" by (simp add: Let_def)
            moreover have "np_loop cmp ps' s' = Some ?s1'" using True cs len empty' nx NaN
              by (subst np_loop.simps) (simp add: Let_def)
            ultimately show ?thesis using R1 by simp
          qed
        qed
      qed
    qed
  qed
  then show ?thesis by simp
qed

lemma np_schedule_perm:
  assumes tot: "\<forall>a b. cmp a b \<le> 0 \<or> cmp b a \<le> 0"
    and tr: "\<forall>a b e. cmp a b \<le> 0 \<longrightarrow> cmp b e \<le> 0 \<longrightarrow> cmp a e \<le> 0"
    and anti: "\<forall>a\<in>set ps. \<forall>b\<in>set ps. cmp a b \<le> 0 \<longrightarrow> cmp b a \<le> 0 \<longrightarrow> a = b"
    and d: "distinct ps" and m: "mset ps' = mset ps"
  shows "np_schedule cmp ps' = np_schedule cmp ps"
proof -
  have d': "distinct ps'" using d mset_eq_imp_distinct_iff[OF m] by simp
  have mm: "Math_min (map arrival ps') = Math_min (map arrival ps)"
    by (rule Math_min_perm) (simp only: mset_map m)
  show ?thesis
  proof (cases "Math_min (map arrival ps)")
    case (Num a)
    let ?s0 = "\<lparr>np_time = a, np_ready = [], np_used = {}, np_completed = 0,
                  np_blocks = [], np_res = Map.empty\<rparr>"
    from np_schedule_sound[of cmp ps] obtain r where "np_schedule cmp ps = Some r" by blast
    then obtain t where t: "np_loop cmp ps ?s0 = Some t"
      by (auto simp: np_schedule_def Num)
    have R0: "np_same ps ps' ?s0 ?s0" by (simp add: np_same_def)
    from np_loop_same[OF tot tr anti d d' m t] R0
    obtain t' where t': "np_loop cmp ps' ?s0 = Some t'" and "np_same ps ps' t t'" by blast
    then have "np_blocks t' = np_blocks t" "np_res t' = np_res t" "np_time t' = np_time t"
      by (simp_all add: np_same_def)
    then show ?thesis using mm by (simp add: np_schedule_def Num t t')
  qed (simp_all add: np_schedule_def mm)
qed

lemma distinct_pid_distinct: "distinct (map pid ps) \<Longrightarrow> distinct ps"
  by (simp add: distinct_map)

lemma sjf_perm:
  assumes "valid ps" "mset ps' = mset ps" "total_preorder lc" "separates lc (pid ` set ps)"
  shows "sjf lc ps' = sjf lc ps"
  unfolding sjf_def
proof (rule np_schedule_perm[OF _ _ _ _ assms(2)])
  from assms(1) have d: "distinct (map pid ps)" by (simp add: valid_def)
  show "distinct ps" by (rule distinct_pid_distinct[OF d])
  show "\<forall>a b. sjf_cmp lc a b \<le> 0 \<or> sjf_cmp lc b a \<le> 0"
    using sjf_cmp_total[OF assms(3)] by blast
  show "\<forall>a b e. sjf_cmp lc a b \<le> 0 \<longrightarrow> sjf_cmp lc b e \<le> 0 \<longrightarrow> sjf_cmp lc a e \<le> 0"
    using sjf_cmp_trans[OF assms(3)] by blast
  show "\<forall>a\<in>set ps. \<forall>b\<in>set ps. sjf_cmp lc a b \<le> 0 \<longrightarrow> sjf_cmp lc b a \<le> 0 \<longrightarrow> a = b"
  proof (intro ballI impI)
    fix a b assume "a \<in> set ps" "b \<in> set ps" "sjf_cmp lc a b \<le> 0" "sjf_cmp lc b a \<le> 0"
    then show "a = b"
      using separated_processes[OF d assms(4)] sjf_cmp_antisym[of lc a b] by blast
  qed
qed

lemma priority_perm:
  assumes "valid ps" "mset ps' = mset ps" "total_preorder lc" "separates lc (pid ` set ps)"
  shows "prioritySchedule lc ps' = prioritySchedule lc ps"
  unfolding prioritySchedule_def
proof (rule np_schedule_perm[OF _ _ _ _ assms(2)])
  from assms(1) have d: "distinct (map pid ps)" by (simp add: valid_def)
  show "distinct ps" by (rule distinct_pid_distinct[OF d])
  show "\<forall>a b. priority_cmp lc a b \<le> 0 \<or> priority_cmp lc b a \<le> 0"
    using priority_cmp_total[OF assms(3)] by blast
  show "\<forall>a b e. priority_cmp lc a b \<le> 0 \<longrightarrow> priority_cmp lc b e \<le> 0 \<longrightarrow>
          priority_cmp lc a e \<le> 0"
    using priority_cmp_trans[OF assms(3)] by blast
  show "\<forall>a\<in>set ps. \<forall>b\<in>set ps.
          priority_cmp lc a b \<le> 0 \<longrightarrow> priority_cmp lc b a \<le> 0 \<longrightarrow> a = b"
  proof (intro ballI impI)
    fix a b
    assume "a \<in> set ps" "b \<in> set ps" "priority_cmp lc a b \<le> 0" "priority_cmp lc b a \<le> 0"
    then show "a = b"
      using separated_processes[OF d assms(4)] priority_cmp_antisym[of lc a b] by blast
  qed
qed

section \<open>Admission before re-enqueueing in Round-Robin (C4)\<close>

lemma sorted_arrival_indices:
  assumes "sorted (map arrival ps)"
  shows "sorted (map (\<lambda>k. arrival (ps ! k)) (filter P [0..<length ps]))"
proof -
  have "map (\<lambda>k. arrival (ps ! k)) [0..<length ps] = map arrival ps"
    by (rule nth_equalityI) simp_all
  then have "sorted (map (\<lambda>k. arrival (ps ! k)) [0..<length ps])"
    using assms by (simp only:)
  then show ?thesis by (rule sorted_filter)
qed

lemma rr_reach_sound: "rr_reach ps q s \<Longrightarrow> rr_sound ps s"
proof (induction rule: rr_reach.induct)
  case (init a)
  show ?case by (rule rr_init_sound)
next
  case (idle s nextIdx)
  then show ?case using rr_idle_sound by blast
next
  case (dispatch s s')
  from rr_dispatch_sound[OF dispatch.IH dispatch.hyps(2), of q] dispatch.hyps(3)
  show ?case by auto
qed

lemma valid_crossed_input: "valid crossed_input"
  by (simp add: valid_def crossed_input_def)

lemma valid_straight_input: "valid straight_input"
  by (simp add: valid_def straight_input_def)

lemma fits_straight_input: "fits 0 straight_input"
  by (simp add: fits_def on_grid_def horizon_def straight_input_def)

lemma crossed_read: "readProcesses lc crossed_rows = Inr straight_input"
  by (simp add: readProcesses_def crossed_rows_def straight_input_def sort_by_def read_cmp_def
      js_or_def js_eval)

lemma crossed_run:
  "roundRobin crossed_input (Num 4) =
     Some (Inr \<lparr>blocks =
        [\<lparr>b_pid = ''P1'', b_start = 0, b_end = 4\<rparr>,
         \<lparr>b_pid = ''P2'', b_start = 4, b_end = 5\<rparr>,
         \<lparr>b_pid = ''P3'', b_start = 5, b_end = 6\<rparr>],
       results =
        [''P1'' \<mapsto> \<lparr>start = 0, completion = 4, tat = 4, wt = 0, response = 0,
                   arrival_of = 0, burst_of = 4, priority_of = 0\<rparr>,
         ''P2'' \<mapsto> \<lparr>start = 4, completion = 5, tat = 3, wt = 2, response = 2,
                   arrival_of = 2, burst_of = 1, priority_of = 0\<rparr>,
         ''P3'' \<mapsto> \<lparr>start = 5, completion = 6, tat = 5, wt = 4, response = 4,
                   arrival_of = 1, burst_of = 1, priority_of = 0\<rparr>],
       endTime = Num 6\<rparr>)"
  by (simp add: crossed_input_def rr_eval)

text \<open>
  C4, as the specification states it, fails: the processes admitted after a run are
  enqueued in the order of the list, and nothing in \<open>roundRobin\<close> sorts that list. On the
  valid list P1(0,4), P2(2,1), P3(1,1) with quantum 4, the first dispatch runs P1 from 0 to
  4 and then admits P2, which arrived at 2, before P3, which arrived at 1; the blocks
  returned are [P1 0-4, P2 4-5, P3 5-6].
\<close>

theorem rr_admits_in_list_order:
  "valid crossed_input
   \<and> rr_reach crossed_input (Some 4) (rr_init crossed_input 0)
   \<and> rr_queue (rr_init crossed_input 0) = [0]
   \<and> rr_run (Some 4) (rr_init crossed_input 0) = 4
   \<and> rr_newly crossed_input (Some 4) (rr_init crossed_input 0) = [1, 2]
   \<and> map (\<lambda>k. arrival (crossed_input ! k)) [1, 2] = [2, 1]
   \<and> (\<exists>s'. rr_dispatch crossed_input (Some 4) (rr_init crossed_input 0) = Inr s'
          \<and> rr_queue s' = [1, 2])
   \<and> map_option blocks (returned (roundRobin crossed_input (Num 4))) =
       Some [\<lparr>b_pid = ''P1'', b_start = 0, b_end = 4\<rparr>,
             \<lparr>b_pid = ''P2'', b_start = 4, b_end = 5\<rparr>,
             \<lparr>b_pid = ''P3'', b_start = 5, b_end = 6\<rparr>]"
proof -
  let ?s = "rr_init crossed_input 0"
  have m: "Math_min (map arrival crossed_input) = Num 0" by (simp add: crossed_input_def)
  have r: "rr_reach crossed_input (Some 4) ?s" by (rule rr_reach.init[OF m])
  have q: "rr_queue ?s = [0]" by (simp add: rr_init_def crossed_input_def upt_conv_Cons)
  have run: "rr_run (Some 4) ?s = 4"
    by (simp add: rr_run_def rr_slice_def rr_init_def crossed_input_def upt_conv_Cons)
  have new: "rr_newly crossed_input (Some 4) ?s = [1, 2]"
    by (simp add: rr_newly_def run) (simp add: rr_init_def crossed_input_def upt_conv_Cons js_eval)
  have ar: "map (\<lambda>k. arrival (crossed_input ! k)) [1, 2] = [2, 1]"
    by (simp add: crossed_input_def)
  have d: "\<exists>s'. rr_dispatch crossed_input (Some 4) ?s = Inr s' \<and> rr_queue s' = [1, 2]"
    by (simp add: crossed_input_def rr_init_def rr_dispatch_def rr_admit_def admit_def
        admit_one_def rr_slice_def first_result_def finalize_def Let_def upt_conv_Cons js_eval)
  show ?thesis
    using valid_crossed_input r q run new ar d by (simp add: crossed_run returned_def)
qed

text \<open>
  C4, amended. In every state \<open>s\<close> that the loop of \<open>roundRobin\<close> reaches with a queue
  \<open>i # rest\<close>, on every list and for every quantum, the dispatch of \<open>i\<close> runs it for
  \<open>run = min(quantum, remaining)\<close>, and the queue afterwards is \<open>rest\<close>, then the newly
  admitted processes, then \<open>i\<close> itself if it still has remaining burst: \<open>i\<close> is placed
  after every process admitted in this step. The newly admitted are the processes not
  yet admitted whose arrival is no later than the end of the run, in the order of the
  list. That order is arrival order when the list is sorted by arrival, which is how
  \<open>readProcesses\<close> delivers it to \<open>compute\<close>. For a valid list whose numbers fit the
  precision of the doubles, the newly admitted are exactly the processes whose arrival
  lies after the start of the run and no later than its end.
\<close>

theorem rr_admits_before_requeue:
  assumes "rr_reach ps q s" and "rr_queue s = i # rest"
  shows "(\<exists>s'. rr_dispatch ps q s = Inr s'
            \<and> rr_time s' = js_add (rr_time s) (rr_run q s)
            \<and> rr_rem s' ! i = js_sub (rr_rem s ! i) (rr_run q s)
            \<and> rr_queue s' =
                rest @ rr_newly ps q s @ (if 0 < js_sub (rr_rem s ! i) (rr_run q s) then [i] else [])
            \<and> rr_arrived s' = rr_arrived s \<union> set (rr_newly ps q s))
       \<and> rr_run q s = (case q of Some x \<Rightarrow> min x (rr_rem s ! i) | None \<Rightarrow> rr_rem s ! i)
       \<and> rr_newly ps q s =
           filter (\<lambda>k. k \<notin> rr_arrived s \<and> arrival (ps ! k) \<le> js_add (rr_time s) (rr_run q s))
             [0..<length ps]
       \<and> (sorted (map arrival ps) \<longrightarrow> sorted (map (\<lambda>k. arrival (ps ! k)) (rr_newly ps q s)))
       \<and> (\<forall>lc rows. total_preorder lc \<longrightarrow> readProcesses lc rows = Inr ps \<longrightarrow>
             sorted (map arrival ps))
       \<and> (valid ps \<longrightarrow> fits k ps \<longrightarrow> good_quantum k q \<longrightarrow>
            set (rr_newly ps q s) =
              {j. j < length ps \<and> rr_time s < arrival (ps ! j)
                  \<and> arrival (ps ! j) \<le> rr_time s + rr_run q s})"
proof (intro conjI impI allI)
  have run: "rr_run q s = rr_slice q (rr_rem s ! i)" using assms(2) by (simp add: rr_run_def)
  from rr_reach_sound[OF assms(1)] have snd: "rr_sound ps s" .
  from snd assms(2) have il: "i < length ps" by (simp add: rr_sound_def)
  with snd have il': "i < length (rr_rem s)"
    and fs: "rr_firstStart s ! i \<noteq> None \<longrightarrow> rr_res s (pid (ps ! i)) \<noteq> None"
    by (simp_all add: rr_sound_def)
  from rr_dispatch_eq[OF assms(2) fs il', of q] obtain s' where s':
    "rr_dispatch ps q s = Inr s'"
    "rr_time s' = js_add (rr_time s) (rr_slice q (rr_rem s ! i))"
    "rr_rem s' = (rr_rem s)[i := js_sub (rr_rem s ! i) (rr_slice q (rr_rem s ! i))]"
    "rr_queue s' =
       rest @ filter (\<lambda>k. k \<notin> rr_arrived s
                 \<and> arrival (ps ! k) \<le> js_add (rr_time s) (rr_slice q (rr_rem s ! i)))
                [0..<length ps]
         @ (if 0 < js_sub (rr_rem s ! i) (rr_slice q (rr_rem s ! i)) then [i] else [])"
    "rr_arrived s' =
       rr_arrived s \<union> {k. k < length ps
              \<and> arrival (ps ! k) \<le> js_add (rr_time s) (rr_slice q (rr_rem s ! i))}"
    by blast
  have ar: "rr_arrived s' = rr_arrived s \<union> set (rr_newly ps q s)"
    unfolding s'(5) rr_newly_def run by auto
  show "\<exists>s'. rr_dispatch ps q s = Inr s'
            \<and> rr_time s' = js_add (rr_time s) (rr_run q s)
            \<and> rr_rem s' ! i = js_sub (rr_rem s ! i) (rr_run q s)
            \<and> rr_queue s' =
                rest @ rr_newly ps q s @ (if 0 < js_sub (rr_rem s ! i) (rr_run q s) then [i] else [])
            \<and> rr_arrived s' = rr_arrived s \<union> set (rr_newly ps q s)"
    using s'(1-4) ar il' by (simp add: rr_newly_def run)
  show "rr_run q s = (case q of Some x \<Rightarrow> min x (rr_rem s ! i) | None \<Rightarrow> rr_rem s ! i)"
    by (simp add: run rr_slice_def)
  show "rr_newly ps q s =
           filter (\<lambda>k. k \<notin> rr_arrived s \<and> arrival (ps ! k) \<le> js_add (rr_time s) (rr_run q s))
             [0..<length ps]"
    by (simp add: rr_newly_def)
  show "sorted (map (\<lambda>k. arrival (ps ! k)) (rr_newly ps q s))" if "sorted (map arrival ps)"
    unfolding rr_newly_def by (rule sorted_arrival_indices[OF that])
  show "sorted (map arrival ps)" if "total_preorder lc" "readProcesses lc rows = Inr ps"
    for lc rows
    using that by (rule readProcesses_sorted)
  show "set (rr_newly ps q s) =
              {j. j < length ps \<and> rr_time s < arrival (ps ! j)
                  \<and> arrival (ps ! j) \<le> rr_time s + rr_run q s}"
    if v: "valid ps" and f: "fits k ps" and gq: "good_quantum k q"
  proof -
    from v have ne: "ps \<noteq> []" by (simp add: valid_def)
    from Math_min_Num[OF ne] obtain a where a: "Math_min (map arrival ps) = Num a" by blast
    have inv: "rr_inv k ps a s" by (rule rr_reach_inv[OF v f gq a assms(1)])
    then have arr: "rr_arrived s = {j. j < length ps \<and> arrival (ps ! j) \<le> rr_time s}"
      by (simp add: rr_inv_def rr_struct_def)
    have ne': "rr_queue s \<noteq> []" using assms(2) by simp
    from rr_dispatch_inv[OF v f gq inv ne'] s'(1)
    have "rr_time s' = rr_time s + rr_slice q (rr_rem s ! i)" using assms(2) by auto
    with s'(2) have e: "js_add (rr_time s) (rr_run q s) = rr_time s + rr_run q s"
      by (simp add: run)
    have "j \<notin> rr_arrived s \<longleftrightarrow> rr_time s < arrival (ps ! j)" if "j < length ps" for j
      unfolding arr using that by auto
    then show ?thesis unfolding rr_newly_def e by auto
  qed
qed

theorem rr_admits_before_requeue_witness:
  "rr_reach straight_input (Some 2) (rr_init straight_input 0)
   \<and> rr_queue (rr_init straight_input 0) = 0 # []
   \<and> rr_run (Some 2) (rr_init straight_input 0) = 2
   \<and> rr_newly straight_input (Some 2) (rr_init straight_input 0) = [1, 2]
   \<and> (\<exists>s'. rr_dispatch straight_input (Some 2) (rr_init straight_input 0) = Inr s'
          \<and> rr_time s' = 2 \<and> rr_rem s' ! 0 = 2 \<and> rr_queue s' = [1, 2, 0]
          \<and> rr_arrived s' = {0, 1, 2})
   \<and> sorted (map arrival straight_input)
   \<and> sorted (map (\<lambda>k. arrival (straight_input ! k))
        (rr_newly straight_input (Some 2) (rr_init straight_input 0)))
   \<and> total_preorder by_code_units
   \<and> readProcesses by_code_units crossed_rows = Inr straight_input
   \<and> valid straight_input \<and> fits 0 straight_input \<and> good_quantum 0 (Some 2)
   \<and> set (rr_newly straight_input (Some 2) (rr_init straight_input 0)) =
       {j. j < length straight_input \<and> rr_time (rr_init straight_input 0) < arrival (straight_input ! j)
           \<and> arrival (straight_input ! j) \<le> rr_time (rr_init straight_input 0) + 2}"
proof -
  let ?s = "rr_init straight_input 0"
  have m: "Math_min (map arrival straight_input) = Num 0" by (simp add: straight_input_def)
  have r: "rr_reach straight_input (Some 2) ?s" by (rule rr_reach.init[OF m])
  have h: "rr_queue ?s = 0 # []" by (simp add: rr_init_def straight_input_def upt_conv_Cons)
  have f: "rr_time ?s = 0" "rr_rem ?s = [4, 1, 1]" "rr_arrived ?s = {0}"
    by (simp_all add: rr_init_def straight_input_def upt_conv_Cons)
  have run: "rr_run (Some 2) ?s = 2"
    by (simp add: rr_run_def rr_slice_def rr_init_def straight_input_def upt_conv_Cons)
  have new: "rr_newly straight_input (Some 2) ?s = [1, 2]"
    by (simp add: rr_newly_def run f) (simp add: straight_input_def upt_conv_Cons js_eval)
  have so: "sorted (map arrival straight_input)" by (simp add: straight_input_def)
  have gq: "good_quantum 0 (Some 2)" by (simp add: good_quantum_def on_grid_def)
  note t = rr_admits_before_requeue[OF r h, of 0]
  have d: "\<exists>s'. rr_dispatch straight_input (Some 2) ?s = Inr s'
          \<and> rr_time s' = 2 \<and> rr_rem s' ! 0 = 2 \<and> rr_queue s' = [1, 2, 0]
          \<and> rr_arrived s' = {0, 1, 2}"
  proof -
    from t[THEN conjunct1] obtain s' where
      "rr_dispatch straight_input (Some 2) ?s = Inr s'"
      "rr_time s' = js_add (rr_time ?s) (rr_run (Some 2) ?s)"
      "rr_rem s' ! 0 = js_sub (rr_rem ?s ! 0) (rr_run (Some 2) ?s)"
      "rr_queue s' = [] @ rr_newly straight_input (Some 2) ?s @
          (if 0 < js_sub (rr_rem ?s ! 0) (rr_run (Some 2) ?s) then [0] else [])"
      "rr_arrived s' = rr_arrived ?s \<union> set (rr_newly straight_input (Some 2) ?s)"
      by blast
    then have "rr_dispatch straight_input (Some 2) ?s = Inr s'
          \<and> rr_time s' = 2 \<and> rr_rem s' ! 0 = 2 \<and> rr_queue s' = [1, 2, 0]
          \<and> rr_arrived s' = {0, 1, 2}"
      unfolding run new f by (auto simp: js_eval)
    then show ?thesis ..
  qed
  from t so have s2: "sorted (map (\<lambda>k. arrival (straight_input ! k))
        (rr_newly straight_input (Some 2) ?s))" by blast
  from t valid_straight_input fits_straight_input gq
  have "set (rr_newly straight_input (Some 2) ?s) =
       {j. j < length straight_input \<and> rr_time ?s < arrival (straight_input ! j)
           \<and> arrival (straight_input ! j) \<le> rr_time ?s + rr_run (Some 2) ?s}" by blast
  then have s3: "set (rr_newly straight_input (Some 2) ?s) =
       {j. j < length straight_input \<and> rr_time ?s < arrival (straight_input ! j)
           \<and> arrival (straight_input ! j) \<le> rr_time ?s + 2}" by (simp only: run)
  from t total_preorder_code_units crossed_read[of by_code_units]
  have s4: "sorted (map arrival straight_input)" by blast
  note tp = total_preorder_code_units and cr = crossed_read[of by_code_units]
    and vs = valid_straight_input and fs = fits_straight_input
  show ?thesis
    by (intro conjI) (fact r h run new d s4 s2 tp cr vs fs gq s3)+
qed

section \<open>Order of the input list (C7)\<close>

lemma fcfs_in_order:
  "blocks (fcfs in_order) =
     [\<lparr>b_pid = ''P1'', b_start = 0, b_end = 1\<rparr>, idle_block 1 10,
      \<lparr>b_pid = ''P2'', b_start = 10, b_end = 11\<rparr>]"
  by (simp add: fcfs_def in_order_def Let_def js_eval)

lemma fcfs_swapped:
  "blocks (fcfs swapped) =
     [idle_block 0 10, \<lparr>b_pid = ''P2'', b_start = 10, b_end = 11\<rparr>,
      \<lparr>b_pid = ''P1'', b_start = 11, b_end = 12\<rparr>]"
  by (simp add: fcfs_def swapped_def Let_def js_eval)

lemma valid_in_order: "valid in_order"
  by (simp add: valid_def in_order_def)

lemma valid_together: "valid together"
  by (simp add: valid_def together_def)

lemma together_run:
  "map_option blocks (returned (roundRobin together (Num 1))) =
     Some [\<lparr>b_pid = ''P1'', b_start = 0, b_end = 1\<rparr>, \<lparr>b_pid = ''P2'', b_start = 1, b_end = 2\<rparr>]"
  by (simp add: together_def rr_eval returned_def)

lemma together_rev_run:
  "map_option blocks (returned (roundRobin (rev together) (Num 1))) =
     Some [\<lparr>b_pid = ''P2'', b_start = 0, b_end = 1\<rparr>, \<lparr>b_pid = ''P1'', b_start = 1, b_end = 2\<rparr>]"
  by (simp add: together_def rr_eval returned_def)

lemma tie_rev_run:
  "map_option blocks (returned (srtf lc (rev tie_input))) =
     Some [\<lparr>b_pid = ''B'', b_start = 0, b_end = 3\<rparr>, \<lparr>b_pid = ''A'', b_start = 3, b_end = 5\<rparr>]"
  by (simp add: tie_input_def srtf_eval returned_def)

text \<open>
  C7, as the specification states it, fails. Each scheduling function is a function of its
  argument list (it reads no clock, random source or state kept between calls), so the
  same list gives the same output; but \<open>fcfs\<close>, \<open>roundRobin\<close> and \<open>srtf\<close> take the list in
  the order given. FCFS on P2(10,1), P1(0,1) idles from 0 to 10, runs P2 and then P1; on the
  same two processes in the other order it runs P1 from 0 to 1 first. Round-Robin with
  quantum 1 on P1(0,1), P2(0,1) runs P1 first, and on the reversed list P2 first. SRTF on
  B(0,3), A(1,2) returns [B 0-1, A 1-3, B 3-5], and on the reversed list [B 0-3, A 3-5].
\<close>

theorem list_order_matters:
  "valid in_order \<and> mset swapped = mset in_order
   \<and> blocks (fcfs in_order) =
       [\<lparr>b_pid = ''P1'', b_start = 0, b_end = 1\<rparr>, idle_block 1 10,
        \<lparr>b_pid = ''P2'', b_start = 10, b_end = 11\<rparr>]
   \<and> blocks (fcfs swapped) =
       [idle_block 0 10, \<lparr>b_pid = ''P2'', b_start = 10, b_end = 11\<rparr>,
        \<lparr>b_pid = ''P1'', b_start = 11, b_end = 12\<rparr>]
   \<and> fcfs swapped \<noteq> fcfs in_order
   \<and> valid together \<and> mset (rev together) = mset together
   \<and> map_option blocks (returned (roundRobin together (Num 1))) =
       Some [\<lparr>b_pid = ''P1'', b_start = 0, b_end = 1\<rparr>, \<lparr>b_pid = ''P2'', b_start = 1, b_end = 2\<rparr>]
   \<and> map_option blocks (returned (roundRobin (rev together) (Num 1))) =
       Some [\<lparr>b_pid = ''P2'', b_start = 0, b_end = 1\<rparr>, \<lparr>b_pid = ''P1'', b_start = 1, b_end = 2\<rparr>]
   \<and> roundRobin (rev together) (Num 1) \<noteq> roundRobin together (Num 1)
   \<and> valid tie_input \<and> mset (rev tie_input) = mset tie_input
   \<and> map_option blocks (returned (srtf by_code_units tie_input)) =
       Some [\<lparr>b_pid = ''B'', b_start = 0, b_end = 1\<rparr>,
             \<lparr>b_pid = ''A'', b_start = 1, b_end = 3\<rparr>,
             \<lparr>b_pid = ''B'', b_start = 3, b_end = 5\<rparr>]
   \<and> map_option blocks (returned (srtf by_code_units (rev tie_input))) =
       Some [\<lparr>b_pid = ''B'', b_start = 0, b_end = 3\<rparr>, \<lparr>b_pid = ''A'', b_start = 3, b_end = 5\<rparr>]
   \<and> srtf by_code_units (rev tie_input) \<noteq> srtf by_code_units tie_input"
proof -
  have m: "mset swapped = mset in_order" by (simp add: swapped_def in_order_def)
  have "blocks (fcfs swapped) \<noteq> blocks (fcfs in_order)"
    by (simp add: fcfs_in_order fcfs_swapped idle_block_def)
  then have f: "fcfs swapped \<noteq> fcfs in_order" by auto
  have "map_option blocks (returned (roundRobin (rev together) (Num 1))) \<noteq>
        map_option blocks (returned (roundRobin together (Num 1)))"
    by (simp add: together_run together_rev_run)
  then have r: "roundRobin (rev together) (Num 1) \<noteq> roundRobin together (Num 1)" by auto
  have t: "map_option blocks (returned (srtf by_code_units tie_input)) =
       Some [\<lparr>b_pid = ''B'', b_start = 0, b_end = 1\<rparr>,
             \<lparr>b_pid = ''A'', b_start = 1, b_end = 3\<rparr>,
             \<lparr>b_pid = ''B'', b_start = 3, b_end = 5\<rparr>]"
    by (simp add: tie_run[of by_code_units, OF code_units_A_B] returned_def)
  have "map_option blocks (returned (srtf by_code_units (rev tie_input))) \<noteq>
        map_option blocks (returned (srtf by_code_units tie_input))"
    by (simp add: t tie_rev_run)
  then have s: "srtf by_code_units (rev tie_input) \<noteq> srtf by_code_units tie_input" by auto
  note a = valid_in_order m fcfs_in_order fcfs_swapped f valid_together mset_rev[of together]
    together_run together_rev_run r valid_tie_input mset_rev[of tie_input] t
    tie_rev_run[of by_code_units] s
  show ?thesis by (intro conjI) (fact a)+
qed

text \<open>
  C7, amended. \<open>sjf\<close> and \<open>prioritySchedule\<close> return the same blocks, results and endTime
  on every permutation of a valid process list, and the sort by arrival, then pid, that
  \<open>readProcesses\<close> applies before any algorithm is called turns every permutation of the
  list into the same list, on which \<open>fcfs\<close>, \<open>srtf\<close> and \<open>roundRobin\<close> then compute the same
  outcome. Both hold when the host's string comparison is a total preorder that tells
  the pids of the list apart; a comparison that returns 0 on two different pids leaves
  them in the order of the rows.
\<close>

theorem order_independence:
  assumes "valid ps" and "mset ps' = mset ps"
    and "total_preorder lc" and "separates lc (pid ` set ps)"
  shows "sjf lc ps' = sjf lc ps
       \<and> prioritySchedule lc ps' = prioritySchedule lc ps
       \<and> sort_by (read_cmp lc) ps' = sort_by (read_cmp lc) ps
       \<and> fcfs (sort_by (read_cmp lc) ps') = fcfs (sort_by (read_cmp lc) ps)
       \<and> srtf lc (sort_by (read_cmp lc) ps') = srtf lc (sort_by (read_cmp lc) ps)
       \<and> (\<forall>q. roundRobin (sort_by (read_cmp lc) ps') q = roundRobin (sort_by (read_cmp lc) ps) q)"
proof -
  from assms(1) have "distinct (map pid ps)" by (simp add: valid_def)
  from read_sort_unique[OF this assms(2,3,4)]
  have "sort_by (read_cmp lc) ps' = sort_by (read_cmp lc) ps" .
  then show ?thesis using sjf_perm[OF assms] priority_perm[OF assms] by simp
qed

theorem order_independence_witness:
  "valid in_order \<and> mset swapped = mset in_order
   \<and> total_preorder by_code_units \<and> separates by_code_units (pid ` set in_order)
   \<and> sjf by_code_units swapped = sjf by_code_units in_order
   \<and> prioritySchedule by_code_units swapped = prioritySchedule by_code_units in_order
   \<and> sort_by (read_cmp by_code_units) swapped = sort_by (read_cmp by_code_units) in_order
   \<and> fcfs (sort_by (read_cmp by_code_units) swapped) = fcfs (sort_by (read_cmp by_code_units) in_order)
   \<and> srtf by_code_units (sort_by (read_cmp by_code_units) swapped) =
       srtf by_code_units (sort_by (read_cmp by_code_units) in_order)
   \<and> roundRobin (sort_by (read_cmp by_code_units) swapped) (Num 2) =
       roundRobin (sort_by (read_cmp by_code_units) in_order) (Num 2)"
proof -
  have m: "mset swapped = mset in_order" by (simp add: swapped_def in_order_def)
  note sp = separates_code_units[of "pid ` set in_order"]
  from order_independence[OF valid_in_order m total_preorder_code_units sp]
    valid_in_order m total_preorder_code_units sp
  show ?thesis by simp
qed


end
